theory Spec2Isabelle
  imports Complex_Main "HOL-Library.List_Lexorder" "HOL-Library.Word"
begin

unbundle bit_operations_syntax

section \<open>Python values of cst_demo.py\<close>

text \<open>
  Grids are Python tuples of ints, modelled as \<open>int list\<close>; Python's unbounded integers are
  \<open>int\<close>. Tuples compare lexicographically (a proper prefix is smaller), which is the order
  on lists of HOL-Library.List_Lexorder. An exception is a value \<open>Inl e\<close> of the result.
\<close>

datatype py_error = IndexError | ValueError | ZeroDivisionError | OverflowError

text \<open>\<open>range(n)\<close>: empty when \<open>n \<le> 0\<close>.\<close>

definition py_range :: "int \<Rightarrow> int list" where
  "py_range n = map int [0..<nat n]"

text \<open>\<open>vec[i]\<close>: a negative index counts from the end, an index out of range raises.\<close>

definition tuple_get :: "'a list \<Rightarrow> int \<Rightarrow> py_error + 'a" where
  "tuple_get vec i =
     (if 0 \<le> i \<and> i < int (length vec) then Inr (vec ! nat i)
      else if i < 0 \<and> 0 \<le> int (length vec) + i then Inr (vec ! nat (int (length vec) + i))
      else Inl IndexError)"

section \<open>Group action on n x n binary grids\<close>

text \<open>
  \<open>rotate90_indices\<close>: two nested loops over \<open>range(n)\<close>, each appending
  \<open>(n - 1 - c) * n + r\<close> to the list \<open>m\<close>.
\<close>

definition rotate90_indices :: "int \<Rightarrow> int list" where
  "rotate90_indices n =
     fold (\<lambda>r m. fold (\<lambda>c m. m @ [(n - 1 - c) * n + r]) (py_range n) m) (py_range n) []"

text \<open>\<open>apply_map\<close>: \<open>tuple(vec[i] for i in index_map)\<close>; the first bad index raises.\<close>

fun apply_map :: "int list \<Rightarrow> int list \<Rightarrow> py_error + int list" where
  "apply_map vec [] = Inr []"
| "apply_map vec (i # index_map) =
     (case tuple_get vec i of
        Inl e \<Rightarrow> Inl e
      | Inr v \<Rightarrow> (case apply_map vec index_map of
                   Inl e \<Rightarrow> Inl e
                 | Inr out \<Rightarrow> Inr (v # out)))"

text \<open>The loop of \<open>rotate\<close>: \<open>out = apply_map(out, rot90_map)\<close>, a given number of times.\<close>

fun rotate_loop :: "nat \<Rightarrow> int list \<Rightarrow> int list \<Rightarrow> py_error + int list" where
  "rotate_loop 0 out rot90_map = Inr out"
| "rotate_loop (Suc j) out rot90_map =
     (case apply_map out rot90_map of
        Inl e \<Rightarrow> Inl e
      | Inr out' \<Rightarrow> rotate_loop j out' rot90_map)"

text \<open>
  \<open>rotate\<close> of the source, named \<open>rotate_grid\<close> here (\<open>rotate\<close> is a list function of HOL).
  \<open>k % 4\<close> is Python's floored remainder, which is \<open>mod\<close> on \<open>int\<close>.
\<close>

definition rotate_grid :: "int list \<Rightarrow> int \<Rightarrow> int \<Rightarrow> int list \<Rightarrow> py_error + int list" where
  "rotate_grid vec n k rot90_map = rotate_loop (nat (k mod 4)) vec rot90_map"

text \<open>
  \<open>int_to_bits\<close>: the shift count \<open>bits - 1 - i\<close> is never negative for \<open>i\<close> in
  \<open>range(bits)\<close>, so the shift cannot raise.
\<close>

definition int_to_bits :: "int \<Rightarrow> int \<Rightarrow> int list" where
  "int_to_bits n bits = map (\<lambda>i. drop_bit (nat (bits - 1 - i)) n AND 1) (py_range bits)"

definition bits_to_int :: "int list \<Rightarrow> int" where
  "bits_to_int bits = foldl (\<lambda>v b. push_bit 1 v OR (b AND 1)) 0 bits"

text \<open>
  \<open>min(candidates)\<close>: the first item, replaced by each later item that is strictly smaller;
  an empty sequence raises ValueError.
\<close>

fun tuple_min :: "int list list \<Rightarrow> py_error + int list" where
  "tuple_min [] = Inl ValueError"
| "tuple_min (c # cs) = Inr (fold (\<lambda>item best. if item < best then item else best) cs c)"

text \<open>The loop of \<open>canonical_representative\<close>, run three times from \<open>candidates = [x]\<close>.\<close>

fun candidates_loop :: "nat \<Rightarrow> int list \<Rightarrow> int list list \<Rightarrow> int list \<Rightarrow> py_error + int list list" where
  "candidates_loop 0 cur candidates rot90_map = Inr candidates"
| "candidates_loop (Suc j) cur candidates rot90_map =
     (case apply_map cur rot90_map of
        Inl e \<Rightarrow> Inl e
      | Inr cur' \<Rightarrow> candidates_loop j cur' (candidates @ [cur']) rot90_map)"

definition canonical_representative :: "int list \<Rightarrow> int \<Rightarrow> int list \<Rightarrow> py_error + int list" where
  "canonical_representative x n rot90_map =
     (case candidates_loop 3 x [x] rot90_map of
        Inl e \<Rightarrow> Inl e
      | Inr candidates \<Rightarrow> tuple_min candidates)"

text \<open>
  The loop of \<open>orbit_size\<close>, run four times from the empty set: the encoding of \<open>cur\<close> is
  added, then \<open>cur\<close> is rotated (also after the last addition).
\<close>

fun orbit_loop :: "nat \<Rightarrow> int list \<Rightarrow> int set \<Rightarrow> int list \<Rightarrow> py_error + int set" where
  "orbit_loop 0 cur s rot90_map = Inr s"
| "orbit_loop (Suc j) cur s rot90_map =
     (case apply_map cur rot90_map of
        Inl e \<Rightarrow> Inl e
      | Inr cur' \<Rightarrow> orbit_loop j cur' (insert (bits_to_int cur) s) rot90_map)"

definition orbit_size :: "int list \<Rightarrow> int \<Rightarrow> int list \<Rightarrow> py_error + nat" where
  "orbit_size x n rot90_map =
     (case orbit_loop 4 x {} rot90_map of
        Inl e \<Rightarrow> Inl e
      | Inr s \<Rightarrow> Inr (card s))"

section \<open>Mutual information estimation\<close>

text \<open>
  \<open>Counter(iterable)\<close>: a dict in insertion order, here an association list; each element
  of the iterable adds one to its key's count, a new key goes to the end. Reading a missing
  key gives 0.
\<close>

fun counter_add :: "'a \<Rightarrow> ('a \<times> nat) list \<Rightarrow> ('a \<times> nat) list" where
  "counter_add k [] = [(k, 1)]"
| "counter_add k ((k', c) # rest) =
     (if k = k' then (k', c + 1) # rest else (k', c) # counter_add k rest)"

definition counter :: "'a list \<Rightarrow> ('a \<times> nat) list" where
  "counter xs = fold counter_add xs []"

definition counter_get :: "('a \<times> nat) list \<Rightarrow> 'a \<Rightarrow> nat" where
  "counter_get c k = (case map_of c k of None \<Rightarrow> 0 | Some v \<Rightarrow> v)"

text \<open>
  Python floats are IEEE doubles, and every step of \<open>empirical_mi\<close> rounds. Their
  arithmetic is not fixed here: the operations that the function uses are the fields of a
  record over a type \<open>'f\<close> of floats, a parameter of the model.
  \<^item> \<open>f_zero\<close> is the literal \<open>0.0\<close>;
  \<^item> \<open>f_of_ratio a b\<close> is \<open>a / b\<close> for two ints with \<open>b\<close> not 0 (Python's true division of
    ints; the counts and the sample size are never negative, so they are naturals);
  \<^item> \<open>f_mul\<close>, \<open>f_div\<close> and \<open>f_add\<close> are \<open>*\<close>, \<open>/\<close> (for a divisor that is not zero) and \<open>+\<close>
    on floats, \<open>f_log2\<close> is \<open>math.log2\<close> inside its domain;
  \<^item> \<open>f_is_zero x\<close> says that \<open>x\<close> is a zero, where the division raises, and \<open>f_nonpos x\<close>
    that \<open>x \<le> 0\<close>, where \<open>math.log2\<close> raises.
\<close>

record 'f float_ops =
  f_zero :: "'f"
  f_of_ratio :: "nat \<Rightarrow> nat \<Rightarrow> 'f"
  f_mul :: "'f \<Rightarrow> 'f \<Rightarrow> 'f"
  f_div :: "'f \<Rightarrow> 'f \<Rightarrow> 'f"
  f_add :: "'f \<Rightarrow> 'f \<Rightarrow> 'f"
  f_log2 :: "'f \<Rightarrow> 'f"
  f_is_zero :: "'f \<Rightarrow> bool"
  f_nonpos :: "'f \<Rightarrow> bool"

text \<open>\<open>a / b\<close> on two ints: ZeroDivisionError when \<open>b\<close> is 0.\<close>

definition int_truediv :: "'f float_ops \<Rightarrow> nat \<Rightarrow> nat \<Rightarrow> py_error + 'f" where
  "int_truediv ops a b = (if b = 0 then Inl ZeroDivisionError else Inr (f_of_ratio ops a b))"

text \<open>\<open>a / b\<close> on two floats: ZeroDivisionError when \<open>b\<close> is a zero.\<close>

definition float_truediv :: "'f float_ops \<Rightarrow> 'f \<Rightarrow> 'f \<Rightarrow> py_error + 'f" where
  "float_truediv ops a b = (if f_is_zero ops b then Inl ZeroDivisionError else Inr (f_div ops a b))"

text \<open>\<open>math.log2(x)\<close>: ValueError when \<open>x \<le> 0\<close>.\<close>

definition float_log2 :: "'f float_ops \<Rightarrow> 'f \<Rightarrow> py_error + 'f" where
  "float_log2 ops x = (if f_nonpos ops x then Inl ValueError else Inr (f_log2 ops x))"

text \<open>
  The loop of \<open>empirical_mi\<close> over \<open>cxy.items()\<close>, with the accumulator \<open>mi\<close>; each of
  its four divisions and its logarithm can raise.
\<close>

fun mi_loop :: "'f float_ops \<Rightarrow> ((int \<times> int) \<times> nat) list \<Rightarrow> (int \<times> nat) list \<Rightarrow> (int \<times> nat) list
    \<Rightarrow> nat \<Rightarrow> 'f \<Rightarrow> py_error + 'f" where
  "mi_loop ops [] cx cy N mi = Inr mi"
| "mi_loop ops (((x, y), nxy) # items) cx cy N mi =
     (case int_truediv ops (counter_get cx x) N of
        Inl e \<Rightarrow> Inl e
      | Inr px \<Rightarrow>
     (case int_truediv ops (counter_get cy y) N of
        Inl e \<Rightarrow> Inl e
      | Inr py \<Rightarrow>
     (case int_truediv ops nxy N of
        Inl e \<Rightarrow> Inl e
      | Inr pxy \<Rightarrow>
     (case float_truediv ops pxy (f_mul ops px py) of
        Inl e \<Rightarrow> Inl e
      | Inr q \<Rightarrow>
     (case float_log2 ops q of
        Inl e \<Rightarrow> Inl e
      | Inr l \<Rightarrow> mi_loop ops items cx cy N (f_add ops mi (f_mul ops pxy l)))))))"

definition empirical_mi :: "'f float_ops \<Rightarrow> (int \<times> int) list \<Rightarrow> py_error + 'f" where
  "empirical_mi ops pairs =
     mi_loop ops (counter pairs) (counter (map fst pairs)) (counter (map snd pairs))
       (length pairs) (f_zero ops)"

section \<open>Compression-based SCI\<close>

text \<open>
  \<open>x.to_bytes(length, 'big')\<close>: OverflowError for a negative \<open>x\<close> or one that does not
  fit into \<open>length\<close> bytes.
\<close>

definition to_bytes :: "int \<Rightarrow> nat \<Rightarrow> py_error + 8 word list" where
  "to_bytes x len =
     (if x < 0 \<or> 256 ^ len \<le> x then Inl OverflowError
      else Inr (map (\<lambda>i. word_of_int (drop_bit (8 * (len - 1 - i)) x)) [0..<len]))"

text \<open>The loop of \<open>sci_via_compression\<close> over the samples, with the two byte buffers.\<close>

fun pack_loop :: "int list list \<Rightarrow> int \<Rightarrow> int list \<Rightarrow> nat \<Rightarrow> 8 word list \<Rightarrow> 8 word list
    \<Rightarrow> py_error + 8 word list \<times> 8 word list" where
  "pack_loop [] n rot90_map bytes_per raw canon = Inr (raw, canon)"
| "pack_loop (x # samples) n rot90_map bytes_per raw canon =
     (case canonical_representative x n rot90_map of
        Inl e \<Rightarrow> Inl e
      | Inr rep \<Rightarrow>
     (case to_bytes (bits_to_int x) bytes_per of
        Inl e \<Rightarrow> Inl e
      | Inr xb \<Rightarrow>
     (case to_bytes (bits_to_int rep) bytes_per of
        Inl e \<Rightarrow> Inl e
      | Inr cb \<Rightarrow> pack_loop samples n rot90_map bytes_per (raw @ xb) (canon @ cb))))"

text \<open>
  The quotient of the last statement of \<open>sci_via_compression\<close>, a float, read as a real
  number; the division raises on a zero divisor.
\<close>

definition py_truediv :: "real \<Rightarrow> real \<Rightarrow> py_error + real" where
  "py_truediv a b = (if b = 0 then Inl ZeroDivisionError else Inr (a / b))"

text \<open>
  \<open>sci_via_compression\<close>. The compressor is zlib, not part of the program: its length
  function \<open>compress_length_bytes(data, level=9)\<close> is the parameter \<open>compress_length\<close>.
  The only division is the last statement's, by \<open>len(samples)\<close>.
\<close>

definition sci_via_compression ::
    "(8 word list \<Rightarrow> nat) \<Rightarrow> int list list \<Rightarrow> int \<Rightarrow> int list \<Rightarrow> py_error + real" where
  "sci_via_compression compress_length samples n rot90_map =
     (case pack_loop samples n rot90_map (nat ((n * n + 7) div 8)) [] [] of
        Inl e \<Rightarrow> Inl e
      | Inr (raw, canon) \<Rightarrow>
          py_truediv (real_of_int ((int (compress_length raw) - int (compress_length canon)) * 8))
            (real (length samples)))"

section \<open>Search speedup demo\<close>

definition invariant_cost :: "int list \<Rightarrow> int \<Rightarrow> int" where
  "invariant_cost x n = sum_list x mod 5"

text \<open>\<open>best is None or c < best\<close>\<close>

definition improves :: "int \<Rightarrow> int option \<Rightarrow> bool" where
  "improves c best = (case best of None \<Rightarrow> True | Some b \<Rightarrow> c < b)"

text \<open>The first loop of \<open>brute_force_search\<close>; \<open>break\<close> returns the count at once.\<close>

fun raw_loop :: "int list list \<Rightarrow> int \<Rightarrow> int option \<Rightarrow> nat \<Rightarrow> nat" where
  "raw_loop [] n best evals_raw = evals_raw"
| "raw_loop (x # samples) n best evals_raw =
     (let c = invariant_cost x n in
      if improves c best
      then (if c = 0 then evals_raw + 1 else raw_loop samples n (Some c) (evals_raw + 1))
      else raw_loop samples n best (evals_raw + 1))"

text \<open>The second loop, with the set \<open>seen\<close>; \<open>continue\<close> skips a representative seen before.\<close>

fun orbit_scan :: "int list list \<Rightarrow> int \<Rightarrow> int list \<Rightarrow> int set \<Rightarrow> int option \<Rightarrow> nat
    \<Rightarrow> py_error + nat" where
  "orbit_scan [] n rot90_map seen best2 evals_orbit = Inr evals_orbit"
| "orbit_scan (x # samples) n rot90_map seen best2 evals_orbit =
     (case canonical_representative x n rot90_map of
        Inl e \<Rightarrow> Inl e
      | Inr rep \<Rightarrow>
          if bits_to_int rep \<in> seen then orbit_scan samples n rot90_map seen best2 evals_orbit
          else (let c = invariant_cost rep n in
                if improves c best2
                then (if c = 0 then Inr (evals_orbit + 1)
                      else orbit_scan samples n rot90_map (insert (bits_to_int rep) seen) (Some c)
                             (evals_orbit + 1))
                else orbit_scan samples n rot90_map (insert (bits_to_int rep) seen) best2
                       (evals_orbit + 1)))"

definition brute_force_search :: "int list list \<Rightarrow> int \<Rightarrow> py_error + nat \<times> nat" where
  "brute_force_search samples n =
     (let rot90_map = rotate90_indices n;
          evals_raw = raw_loop samples n None 0
      in case orbit_scan samples n rot90_map {} None 0 of
           Inl e \<Rightarrow> Inl e
         | Inr evals_orbit \<Rightarrow> Inr (evals_raw, evals_orbit))"

section \<open>Notions of the specification and of the proofs\<close>

text \<open>The source index of the flat destination position \<open>i\<close>, on naturals.\<close>

definition src_index :: "nat \<Rightarrow> nat \<Rightarrow> nat" where
  "src_index N i = (N - 1 - i mod N) * N + i div N"

text \<open>The rotated grid as a function of the grid, for the proofs.\<close>

definition rot90 :: "nat \<Rightarrow> int list \<Rightarrow> int list" where
  "rot90 N g = map (\<lambda>i. g ! src_index N i) [0..<N * N]"

text \<open>
  "Apply the rotation map \<open>j\<close> times in sequence", in the specification's words: the map is
  applied to the result of the \<open>j - 1\<close> earlier applications.
\<close>

primrec apply_times :: "nat \<Rightarrow> int list \<Rightarrow> int list \<Rightarrow> py_error + int list" where
  "apply_times 0 g m = Inr g"
| "apply_times (Suc j) g m =
     (case apply_times j g m of Inl e \<Rightarrow> Inl e | Inr g' \<Rightarrow> apply_map g' m)"

text \<open>The four rotations of a grid, as a set.\<close>

definition orbit4 :: "nat \<Rightarrow> int list \<Rightarrow> int list set" where
  "orbit4 N g = {g, rot90 N g, rot90 N (rot90 N g), rot90 N (rot90 N (rot90 N g))}"

text \<open>A grid of the data model holds bits only.\<close>

definition is_bits :: "int list \<Rightarrow> bool" where
  "is_bits g = (set g \<subseteq> {0, 1})"

text \<open>The low bits of a tuple of ints: what \<open>bits_to_int\<close> reads of it.\<close>

definition low_bits :: "int list \<Rightarrow> int list" where
  "low_bits g = map (\<lambda>b. b mod 2) g"

text \<open>
  "Rejected before reaching the division": the call raises, and the error is not the one
  that the division by the sample count raises.
\<close>

definition rejected_before_division :: "py_error + real \<Rightarrow> bool" where
  "rejected_before_division r =
     (case r of Inl e \<Rightarrow> e \<noteq> ZeroDivisionError | Inr v \<Rightarrow> False)"

text \<open>
  The plug-in estimate in the specification's words, over the same float operations. The
  observed pairs are the distinct pairs of the sample, in the order of their first
  occurrence; the empirical frequencies are counts divided by the sample size \<open>N\<close>.
\<close>

definition observed :: "'a list \<Rightarrow> 'a list" where
  "observed xs = rev (remdups (rev xs))"

definition joint_freq :: "'f float_ops \<Rightarrow> (int \<times> int) list \<Rightarrow> int \<times> int \<Rightarrow> 'f" where
  "joint_freq ops pairs xy = f_of_ratio ops (count_list pairs xy) (length pairs)"

definition x_freq :: "'f float_ops \<Rightarrow> (int \<times> int) list \<Rightarrow> int \<Rightarrow> 'f" where
  "x_freq ops pairs x = f_of_ratio ops (count_list (map fst pairs) x) (length pairs)"

definition y_freq :: "'f float_ops \<Rightarrow> (int \<times> int) list \<Rightarrow> int \<Rightarrow> 'f" where
  "y_freq ops pairs y = f_of_ratio ops (count_list (map snd pairs) y) (length pairs)"

text \<open>\<open>p(x,y) / (p(x) * p(y))\<close> and \<open>p(x,y) * log2 (p(x,y) / (p(x) * p(y)))\<close>\<close>

definition freq_ratio :: "'f float_ops \<Rightarrow> (int \<times> int) list \<Rightarrow> int \<times> int \<Rightarrow> 'f" where
  "freq_ratio ops pairs xy =
     f_div ops (joint_freq ops pairs xy)
       (f_mul ops (x_freq ops pairs (fst xy)) (y_freq ops pairs (snd xy)))"

definition plug_in_term :: "'f float_ops \<Rightarrow> (int \<times> int) list \<Rightarrow> int \<times> int \<Rightarrow> 'f" where
  "plug_in_term ops pairs xy =
     f_mul ops (joint_freq ops pairs xy) (f_log2 ops (freq_ratio ops pairs xy))"

text \<open>The term of a pair is defined: its divisor is not a zero and its ratio is positive.\<close>

definition term_defined :: "'f float_ops \<Rightarrow> (int \<times> int) list \<Rightarrow> int \<times> int \<Rightarrow> bool" where
  "term_defined ops pairs xy =
     (\<not> f_is_zero ops (f_mul ops (x_freq ops pairs (fst xy)) (y_freq ops pairs (snd xy)))
      \<and> \<not> f_nonpos ops (freq_ratio ops pairs xy))"

text \<open>The sum of the terms of a list of pairs, added one after the other to \<open>mi\<close>.\<close>

definition plug_in_sum :: "'f float_ops \<Rightarrow> (int \<times> int) list \<Rightarrow> (int \<times> int) list \<Rightarrow> 'f \<Rightarrow> 'f" where
  "plug_in_sum ops pairs xys mi = foldl (\<lambda>mi xy. f_add ops mi (plug_in_term ops pairs xy)) mi xys"

text \<open>
  The same sum where a term need not be defined: the first undefined term raises, the error
  of the division before the error of the logarithm.
\<close>

fun plug_in_result :: "'f float_ops \<Rightarrow> (int \<times> int) list \<Rightarrow> (int \<times> int) list \<Rightarrow> 'f \<Rightarrow> py_error + 'f" where
  "plug_in_result ops pairs [] mi = Inr mi"
| "plug_in_result ops pairs (xy # xys) mi =
     (if f_is_zero ops (f_mul ops (x_freq ops pairs (fst xy)) (y_freq ops pairs (snd xy)))
      then Inl ZeroDivisionError
      else if f_nonpos ops (freq_ratio ops pairs xy) then Inl ValueError
      else plug_in_result ops pairs xys (f_add ops mi (plug_in_term ops pairs xy)))"

text \<open>
  Exact arithmetic on the real numbers: one instance of the float operations, without
  rounding. IEEE doubles are another instance, which is not defined here.
\<close>

definition exact_ops :: "real float_ops" where
  "exact_ops =
     \<lparr>f_zero = 0, f_of_ratio = (\<lambda>a b. real a / real b), f_mul = (*), f_div = (/), f_add = (+),
      f_log2 = log 2, f_is_zero = (\<lambda>x. x = 0), f_nonpos = (\<lambda>x. x \<le> 0)\<rparr>"

text \<open>A grid of the data model for size \<open>n\<close>: \<open>n * n\<close> bits.\<close>

definition is_grid :: "int \<Rightarrow> int list \<Rightarrow> bool" where
  "is_grid n x = (is_bits x \<and> length x = nat (n * n))"

text \<open>
  The number of samples a scan reads when it stops at the first sample of cost 0 (all of
  them when there is none).
\<close>

fun first_zero :: "int list list \<Rightarrow> int \<Rightarrow> nat" where
  "first_zero [] n = 0"
| "first_zero (x # samples) n =
     (if invariant_cost x n = 0 then 1 else 1 + first_zero samples n)"

text \<open>The best cost so far, if any, is positive: the scan has not stopped.\<close>

definition open_best :: "int option \<Rightarrow> bool" where
  "open_best best = (case best of None \<Rightarrow> True | Some b \<Rightarrow> 0 < b)"

text \<open>No grid of cost 0 has the encoding of its representative in \<open>seen\<close>.\<close>

definition seen_safe :: "nat \<Rightarrow> int \<Rightarrow> int set \<Rightarrow> bool" where
  "seen_safe N n seen =
     (\<forall>y. is_bits y \<and> length y = N * N \<and> invariant_cost y n = 0
          \<longrightarrow> bits_to_int (Min (orbit4 N y)) \<notin> seen)"

section \<open>The index map\<close>

lemma fold_append_map: "fold (\<lambda>c m. m @ [f c]) cs m = m @ map f cs"
  by (induction cs arbitrary: m) simp_all

lemma fold_append_concat: "fold (\<lambda>r m. m @ g r) rs m = m @ concat (map g rs)"
  by (induction rs arbitrary: m) simp_all

lemma rotate90_indices_concat:
  "rotate90_indices n =
     concat (map (\<lambda>r. map (\<lambda>c. (n - 1 - c) * n + r) (py_range n)) (py_range n))"
  by (simp add: rotate90_indices_def fold_append_map fold_append_concat)

lemma concat_rows:
  "concat (map (\<lambda>r. map (f r) [0..<N]) [0..<M]) = map (\<lambda>i. f (i div N) (i mod N)) [0..<M * N]"
proof (induction M)
  case 0
  show ?case by simp
next
  case (Suc M)
  have row: "map (\<lambda>i. f (i div N) (i mod N)) [M * N..<M * N + N] = map (f M) [0..<N]"
  proof (rule nth_equalityI)
    show "length (map (\<lambda>i. f (i div N) (i mod N)) [M * N..<M * N + N]) = length (map (f M) [0..<N])"
      by simp
  next
    fix i
    assume "i < length (map (\<lambda>i. f (i div N) (i mod N)) [M * N..<M * N + N])"
    then have i: "i < N" by simp
    then show "map (\<lambda>i. f (i div N) (i mod N)) [M * N..<M * N + N] ! i = map (f M) [0..<N] ! i"
      by simp
  qed
  have "[0..<Suc M * N] = [0..<M * N] @ [M * N..<M * N + N]"
    by (metis add.commute le_add1 mult_Suc upt_add_eq_append zero_le)
  then show ?case
    using Suc row by simp
qed

lemma rotate90_indices_src:
  "rotate90_indices (int N) = map (\<lambda>i. int (src_index N i)) [0..<N * N]"
proof -
  have "rotate90_indices (int N) =
      concat (map (\<lambda>r. map (\<lambda>c. (int N - 1 - int c) * int N + int r) [0..<N]) [0..<N])"
    by (simp add: rotate90_indices_concat py_range_def comp_def)
  also have "\<dots> = map (\<lambda>i. (int N - 1 - int (i mod N)) * int N + int (i div N)) [0..<N * N]"
    by (rule concat_rows)
  also have "\<dots> = map (\<lambda>i. int (src_index N i)) [0..<N * N]"
  proof (rule map_cong [OF refl])
    fix i
    assume "i \<in> set [0..<N * N]"
    then have "0 < N" by (cases N) simp_all
    then have "i mod N < N" by simp
    then have "int (N - 1 - i mod N) = int N - 1 - int (i mod N)" by simp
    then show "(int N - 1 - int (i mod N)) * int N + int (i div N) = int (src_index N i)"
      by (simp add: src_index_def)
  qed
  finally show ?thesis .
qed

lemma src_index_div: "i < N * N \<Longrightarrow> src_index N i div N = N - 1 - i mod N"
proof -
  assume a: "i < N * N"
  then have "0 < N" by (cases N) simp_all
  moreover from a have "i div N < N" by (simp add: less_mult_imp_div_less)
  ultimately show ?thesis by (simp add: src_index_def)
qed

lemma src_index_mod: "i < N * N \<Longrightarrow> src_index N i mod N = i div N"
proof -
  assume a: "i < N * N"
  then have "i div N < N" by (simp add: less_mult_imp_div_less)
  then show ?thesis by (simp add: src_index_def)
qed

lemma src_index_less: "i < N * N \<Longrightarrow> src_index N i < N * N"
proof -
  assume a: "i < N * N"
  then have N: "0 < N" by (cases N) simp_all
  from a have d: "i div N < N" by (simp add: less_mult_imp_div_less)
  have "(N - 1 - i mod N) * N + i div N < (N - 1 - i mod N) * N + N" using d by simp
  also have "\<dots> = (N - 1 - i mod N + 1) * N" by (simp add: algebra_simps)
  also have "\<dots> \<le> N * N" using N by (intro mult_le_mono1) simp
  finally show ?thesis by (simp add: src_index_def)
qed

lemma src_index_twice:
  assumes "i < N * N"
  shows "src_index N (src_index N i) = (N - 1 - i div N) * N + (N - 1 - i mod N)"
  using assms by (simp add: src_index_def [of N "src_index N i"] src_index_div src_index_mod)

lemma src_index_order4:
  assumes "i < N * N"
  shows "src_index N (src_index N (src_index N (src_index N i))) = i"
proof -
  from assms have N: "0 < N" by (cases N) simp_all
  from assms have d: "i div N < N" by (simp add: less_mult_imp_div_less)
  have m: "i mod N < N" using N by simp
  let ?j = "src_index N (src_index N i)"
  have j: "?j < N * N" using assms by (simp add: src_index_less)
  have jd: "?j div N = N - 1 - i div N"
    using assms by (simp add: src_index_div src_index_mod src_index_less)
  have jm: "?j mod N = N - 1 - i mod N"
    using assms by (simp add: src_index_div src_index_mod src_index_less)
  have "src_index N (src_index N ?j) = (N - 1 - ?j div N) * N + (N - 1 - ?j mod N)"
    using j by (rule src_index_twice)
  also have "\<dots> = (i div N) * N + i mod N"
  proof -
    have "N - 1 - (N - 1 - i div N) = i div N" using d by arith
    moreover have "N - 1 - (N - 1 - i mod N) = i mod N" using m by arith
    ultimately show ?thesis by (simp only: jd jm)
  qed
  also have "\<dots> = i" by simp
  finally show ?thesis .
qed

section \<open>Applying the index map\<close>

lemma apply_map_in_range:
  "\<forall>i \<in> set index_map. 0 \<le> i \<and> i < int (length vec) \<Longrightarrow>
   apply_map vec index_map = Inr (map (\<lambda>i. vec ! nat i) index_map)"
  by (induction index_map) (simp_all add: tuple_get_def)

lemma length_rot90 [simp]: "length (rot90 N g) = N * N"
  by (simp add: rot90_def)

lemma apply_map_rot90:
  assumes "length g = N * N"
  shows "apply_map g (rotate90_indices (int N)) = Inr (rot90 N g)"
proof -
  have "\<forall>i \<in> set (rotate90_indices (int N)). 0 \<le> i \<and> i < int (length g)"
    unfolding rotate90_indices_src assms using src_index_less [of _ N]
    by (auto simp only: set_map set_upt of_nat_less_iff of_nat_0_le_iff atLeastLessThan_iff)
  then have "apply_map g (rotate90_indices (int N)) =
      Inr (map (\<lambda>i. g ! nat i) (rotate90_indices (int N)))"
    by (rule apply_map_in_range)
  then show ?thesis
    by (simp add: rotate90_indices_src rot90_def comp_def)
qed

lemma rot90_nth: "i < N * N \<Longrightarrow> rot90 N g ! i = g ! src_index N i"
  by (simp add: rot90_def)

lemma rot90_order4:
  assumes "length g = N * N"
  shows "rot90 N (rot90 N (rot90 N (rot90 N g))) = g"
proof (rule nth_equalityI)
  show "length (rot90 N (rot90 N (rot90 N (rot90 N g)))) = length g"
    using assms by simp
next
  fix i
  assume "i < length (rot90 N (rot90 N (rot90 N (rot90 N g))))"
  then have i: "i < N * N" by simp
  then show "rot90 N (rot90 N (rot90 N (rot90 N g))) ! i = g ! i"
    by (simp add: rot90_nth src_index_less src_index_order4)
qed

lemma rotate_loop_rot90:
  "length g = N * N \<Longrightarrow> rotate_loop j g (rotate90_indices (int N)) = Inr ((rot90 N ^^ j) g)"
proof (induction j arbitrary: g)
  case 0
  show ?case by simp
next
  case (Suc j)
  then show ?case
    by (simp add: apply_map_rot90 funpow_swap1)
qed

lemma src_index_inj: "inj_on (src_index N) {0..<N * N}"
proof (rule inj_onI)
  fix i j
  assume i: "i \<in> {0..<N * N}" and j: "j \<in> {0..<N * N}" and e: "src_index N i = src_index N j"
  have "i = src_index N (src_index N (src_index N (src_index N i)))"
    using i by (simp add: src_index_order4)
  also have "\<dots> = src_index N (src_index N (src_index N (src_index N j)))"
    by (simp only: e)
  also have "\<dots> = j"
    using j by (simp add: src_index_order4)
  finally show "i = j" .
qed

lemma src_index_image: "src_index N ` {0..<N * N} = {0..<N * N}"
proof
  show "src_index N ` {0..<N * N} \<subseteq> {0..<N * N}"
    by (auto simp: src_index_less)
next
  show "{0..<N * N} \<subseteq> src_index N ` {0..<N * N}"
  proof
    fix i
    assume "i \<in> {0..<N * N}"
    then have i: "i < N * N" by simp
    let ?j = "src_index N (src_index N (src_index N i))"
    have "?j \<in> {0..<N * N}" using i by (simp add: src_index_less)
    moreover have "src_index N ?j = i" using i by (rule src_index_order4)
    ultimately show "i \<in> src_index N ` {0..<N * N}" by (metis imageI)
  qed
qed

lemma src_index_row_col:
  assumes "R < N" and "C < N"
  shows "src_index N (R * N + C) = (N - 1 - C) * N + R"
  using assms by (simp add: src_index_def)

text \<open>
  C4. For every \<open>n \<ge> 1\<close>, \<open>rotate90_indices n\<close> has length \<open>n * n\<close>; its entry at the flat
  destination position \<open>r * n + c\<close> is \<open>(n - 1 - c) * n + r\<close>; every entry lies in
  \<open>[0, n * n)\<close>; and the sequence is a permutation of \<open>0 .. n * n - 1\<close> (it has no
  duplicate and its entries are exactly these numbers).
\<close>

theorem rotate90_indices_permutation:
  assumes "1 \<le> n"
  shows "length (rotate90_indices n) = nat (n * n)
       \<and> (\<forall>r c. 0 \<le> r \<and> r < n \<and> 0 \<le> c \<and> c < n \<longrightarrow>
             rotate90_indices n ! nat (r * n + c) = (n - 1 - c) * n + r)
       \<and> (\<forall>i \<in> set (rotate90_indices n). 0 \<le> i \<and> i < n * n)
       \<and> distinct (rotate90_indices n)
       \<and> set (rotate90_indices n) = {0..<n * n}"
proof -
  define N where "N = nat n"
  with assms have n: "n = int N" and N: "0 < N" by simp_all
  have len: "length (rotate90_indices n) = nat (n * n)"
    by (simp add: n rotate90_indices_src nat_mult_distrib)
  have entry: "rotate90_indices n ! nat (r * n + c) = (n - 1 - c) * n + r"
    if "0 \<le> r" "r < n" "0 \<le> c" "c < n" for r c
  proof -
    define R C where "R = nat r" and "C = nat c"
    with that have r: "r = int R" and c: "c = int C" and R: "R < N" and C: "C < N"
      by (simp_all add: n)
    have "R * N + C < R * N + N" using C by simp
    also have "\<dots> = (R + 1) * N" by simp
    also have "\<dots> \<le> N * N" using R by (intro mult_le_mono1) simp
    finally have less: "R * N + C < N * N" .
    have pos: "nat (r * n + c) = R * N + C"
      by (simp add: r c n nat_add_distrib nat_mult_distrib)
    have val: "int ((N - 1 - C) * N + R) = (n - 1 - c) * n + r"
      using C by (simp add: r c n of_nat_diff)
    have "rotate90_indices (int N) ! (R * N + C) = int (src_index N (R * N + C))"
      using less by (simp only: rotate90_indices_src nth_map length_upt nth_upt minus_nat.diff_0 add_0)
    also have "\<dots> = int ((N - 1 - C) * N + R)"
      using R C by (simp only: src_index_row_col)
    finally show ?thesis
      by (simp only: pos val n [symmetric])
  qed
  have set_eq: "set (rotate90_indices n) = {0..<n * n}"
  proof -
    have "set (rotate90_indices n) = int ` src_index N ` {0..<N * N}"
      by (simp add: n rotate90_indices_src image_image)
    also have "\<dots> = int ` {0..<N * N}"
      by (simp only: src_index_image)
    also have "\<dots> = {0..<int (N * N)}"
      by (simp add: image_int_atLeastLessThan)
    finally show ?thesis by (simp add: n)
  qed
  have dist: "distinct (rotate90_indices n)"
  proof -
    have "inj_on (\<lambda>i. int (src_index N i)) {0..<N * N}"
    proof (rule inj_onI)
      fix i j
      assume i: "i \<in> {0..<N * N}" and j: "j \<in> {0..<N * N}"
        and "int (src_index N i) = int (src_index N j)"
      then have "src_index N i = src_index N j" by (simp only: of_nat_eq_iff)
      with i j show "i = j" by (rule inj_onD [OF src_index_inj, rotated])
    qed
    then show ?thesis
      by (simp add: n rotate90_indices_src distinct_map)
  qed
  have range: "\<forall>i \<in> set (rotate90_indices n). 0 \<le> i \<and> i < n * n"
    unfolding set_eq by simp
  have entries: "\<forall>r c. 0 \<le> r \<and> r < n \<and> 0 \<le> c \<and> c < n \<longrightarrow>
      rotate90_indices n ! nat (r * n + c) = (n - 1 - c) * n + r"
    using entry by blast
  show ?thesis
    by (rule conjI [OF len conjI [OF entries conjI [OF range conjI [OF dist set_eq]]]])
qed

theorem rotate90_indices_permutation_witness:
  "(1::int) \<le> 2
   \<and> rotate90_indices 2 = [2, 0, 3, 1]
   \<and> length (rotate90_indices 2) = nat (2 * 2)
   \<and> rotate90_indices 2 ! nat (1 * 2 + 0) = (2 - 1 - 0) * 2 + 1
   \<and> distinct (rotate90_indices 2)
   \<and> set (rotate90_indices 2) = {0..<2 * 2}"
proof -
  have h: "(1::int) \<le> 2" by simp
  have v: "rotate90_indices 2 = [2, 0, 3, 1]"
    by (simp add: rotate90_indices_def py_range_def upt_rec)
  note t = rotate90_indices_permutation [OF h]
  from t have l: "length (rotate90_indices 2) = nat (2 * 2)" by (rule conjunct1)
  from t have "(0::int) \<le> 1 \<and> (1::int) < 2 \<and> (0::int) \<le> 0 \<and> (0::int) < 2 \<longrightarrow>
      rotate90_indices 2 ! nat (1 * 2 + 0) = (2 - 1 - 0) * 2 + 1"
    by blast
  then have e: "rotate90_indices 2 ! nat (1 * 2 + 0) = (2 - 1 - 0) * 2 + 1" by simp
  from t have d: "distinct (rotate90_indices 2)" by blast
  from t have s: "set (rotate90_indices 2) = {0..<2 * 2}" by blast
  from h v l e d s show ?thesis by blast
qed

section \<open>Rotation is of order four\<close>

lemma apply_times_first:
  "apply_times (Suc j) g m =
     (case apply_map g m of Inl e \<Rightarrow> Inl e | Inr g' \<Rightarrow> apply_times j g' m)"
proof (induction j)
  case 0
  show ?case by (simp split: sum.split)
next
  case (Suc j)
  have "apply_times (Suc (Suc j)) g m =
      (case apply_times (Suc j) g m of Inl e \<Rightarrow> Inl e | Inr g' \<Rightarrow> apply_map g' m)"
    by simp
  also have "\<dots> = (case apply_map g m of Inl e \<Rightarrow> Inl e | Inr g' \<Rightarrow> apply_times (Suc j) g' m)"
    by (simp only: Suc.IH) (simp split: sum.split)
  finally show ?case .
qed

lemma rotate_loop_apply_times: "rotate_loop j g m = apply_times j g m"
proof (induction j arbitrary: g)
  case 0
  show ?case by simp
next
  case (Suc j)
  show ?case
    by (simp only: apply_times_first rotate_loop.simps Suc.IH)
qed

lemma funpow4: "(f ^^ 4) x = f (f (f (f x)))"
  by (simp add: numeral_eq_Suc)

text \<open>
  C2. For every \<open>n \<ge> 1\<close> and every grid \<open>g\<close> of length \<open>n * n\<close>, with the index map of size
  \<open>n\<close>: \<open>rotate\<close> with \<open>k = 4\<close> and with \<open>k = 0\<close> returns \<open>g\<close>; for every \<open>k\<close>, \<open>rotate\<close>
  applies the map \<open>k mod 4\<close> times in sequence, never raising; and four applications in
  sequence give \<open>g\<close> back (the rotation is of order four), so that \<open>k\<close> and \<open>k + 4\<close> rotate
  alike.
\<close>

theorem rotate_order4:
  assumes "1 \<le> n" and "length g = nat (n * n)"
  shows "rotate_grid g n 4 (rotate90_indices n) = Inr g
       \<and> rotate_grid g n 0 (rotate90_indices n) = Inr g
       \<and> rotate_grid g n k (rotate90_indices n) = apply_times (nat (k mod 4)) g (rotate90_indices n)
       \<and> (\<exists>g'. rotate_grid g n k (rotate90_indices n) = Inr g' \<and> length g' = length g)
       \<and> apply_times 4 g (rotate90_indices n) = Inr g
       \<and> rotate_grid g n (k + 4) (rotate90_indices n) = rotate_grid g n k (rotate90_indices n)"
proof -
  define N where "N = nat n"
  with assms have n: "n = int N" and len: "length g = N * N"
    by (simp_all add: nat_mult_distrib)
  have four: "rotate_grid g n 4 (rotate90_indices n) = Inr g"
    by (simp add: rotate_grid_def)
  have zero: "rotate_grid g n 0 (rotate90_indices n) = Inr g"
    by (simp add: rotate_grid_def)
  have times: "rotate_grid g n k (rotate90_indices n) = apply_times (nat (k mod 4)) g (rotate90_indices n)"
    by (simp only: rotate_grid_def rotate_loop_apply_times)
  have "rotate_grid g n k (rotate90_indices n) = Inr ((rot90 N ^^ nat (k mod 4)) g)"
    using len by (simp only: rotate_grid_def n rotate_loop_rot90)
  moreover have "length ((rot90 N ^^ j) g) = length g" for j
    using len by (cases j) simp_all
  ultimately have total: "\<exists>g'. rotate_grid g n k (rotate90_indices n) = Inr g' \<and> length g' = length g"
    by blast
  have "apply_times 4 g (rotate90_indices n) = Inr ((rot90 N ^^ 4) g)"
    using len by (simp only: n rotate_loop_apply_times [symmetric] rotate_loop_rot90)
  also have "(rot90 N ^^ 4) g = g"
    using len by (simp only: funpow4 rot90_order4)
  finally have order: "apply_times 4 g (rotate90_indices n) = Inr g" .
  have period: "rotate_grid g n (k + 4) (rotate90_indices n) = rotate_grid g n k (rotate90_indices n)"
    by (simp add: rotate_grid_def)
  show ?thesis
    by (rule conjI [OF four conjI [OF zero conjI [OF times conjI [OF total conjI [OF order period]]]]])
qed

theorem rotate_order4_witness:
  "(1::int) \<le> 2 \<and> length [1, 0, 0, 0 :: int] = nat (2 * 2)
   \<and> rotate_grid [1, 0, 0, 0] 2 4 (rotate90_indices 2) = Inr [1, 0, 0, 0]
   \<and> rotate_grid [1, 0, 0, 0] 2 0 (rotate90_indices 2) = Inr [1, 0, 0, 0]
   \<and> rotate_grid [1, 0, 0, 0] 2 (-3) (rotate90_indices 2) = Inr [0, 1, 0, 0]
   \<and> apply_times 4 [1, 0, 0, 0] (rotate90_indices 2) = Inr [1, 0, 0, 0]"
proof -
  have h1: "(1::int) \<le> 2" and h2: "length [1, 0, 0, 0 :: int] = nat (2 * 2)"
    by simp_all
  have v: "rotate90_indices 2 = [2, 0, 3, 1]"
    by (simp add: rotate90_indices_def py_range_def upt_rec)
  have r: "rotate_grid [1, 0, 0, 0] 2 (-3) (rotate90_indices 2) = Inr [0, 1, 0, 0]"
    by (simp add: v rotate_grid_def tuple_get_def)
  note t = rotate_order4 [OF h1 h2, of 0]
  from t have a: "rotate_grid [1, 0, 0, 0] 2 4 (rotate90_indices 2) = Inr [1, 0, 0, 0]" by (rule conjunct1)
  from t have b: "rotate_grid [1, 0, 0, 0] 2 0 (rotate90_indices 2) = Inr [1, 0, 0, 0]" by blast
  from t have c: "apply_times 4 [1, 0, 0, 0] (rotate90_indices 2) = Inr [1, 0, 0, 0]" by blast
  from h1 h2 a b r c show ?thesis by blast
qed

section \<open>The canonical representative\<close>

lemma candidates_loop_rot90:
  assumes "length g = N * N"
  shows "candidates_loop 3 g [g] (rotate90_indices (int N)) =
     Inr [g, rot90 N g, rot90 N (rot90 N g), rot90 N (rot90 N (rot90 N g))]"
  using assms by (simp add: numeral_3_eq_3 apply_map_rot90)

lemma fold_min_step:
  "fold (\<lambda>item best. if item < best then item else best) cs (c :: int list) = fold min cs c"
proof -
  have "(\<lambda>item best :: int list. if item < best then item else best) = min"
    by (intro ext) (auto simp: min_def)
  then show ?thesis by simp
qed

lemma tuple_min_Min: "tuple_min (c # cs) = Inr (Min (set (c # cs)))"
  by (simp only: tuple_min.simps fold_min_step Min.set_eq_fold)

lemma canonical_representative_Min:
  assumes "length g = N * N"
  shows "canonical_representative g (int N) (rotate90_indices (int N)) = Inr (Min (orbit4 N g))"
proof -
  have "canonical_representative g (int N) (rotate90_indices (int N)) =
      tuple_min [g, rot90 N g, rot90 N (rot90 N g), rot90 N (rot90 N (rot90 N g))]"
    using assms by (simp add: canonical_representative_def candidates_loop_rot90)
  also have "\<dots> = Inr (Min (set [g, rot90 N g, rot90 N (rot90 N g), rot90 N (rot90 N (rot90 N g))]))"
    by (rule tuple_min_Min)
  also have "set [g, rot90 N g, rot90 N (rot90 N g), rot90 N (rot90 N (rot90 N g))] = orbit4 N g"
    by (simp add: orbit4_def)
  finally show ?thesis .
qed

lemma orbit4_rot90:
  assumes "length g = N * N"
  shows "orbit4 N (rot90 N g) = orbit4 N g"
proof -
  have "rot90 N (rot90 N (rot90 N (rot90 N g))) = g"
    using assms by (rule rot90_order4)
  then show ?thesis
    unfolding orbit4_def by (simp add: insert_commute)
qed

lemma orbit4_funpow:
  assumes "length g = N * N"
  shows "orbit4 N ((rot90 N ^^ j) g) = orbit4 N g"
proof (induction j)
  case 0
  show ?case by simp
next
  case (Suc j)
  have "length ((rot90 N ^^ j) g) = N * N"
    using assms by (cases j) simp_all
  then have "orbit4 N (rot90 N ((rot90 N ^^ j) g)) = orbit4 N ((rot90 N ^^ j) g)"
    by (rule orbit4_rot90)
  with Suc show ?case by simp
qed

lemma length_funpow_rot90: "length g = N * N \<Longrightarrow> length ((rot90 N ^^ j) g) = N * N"
  by (cases j) simp_all

lemma orbit4_member:
  assumes "c \<in> orbit4 N g" and "length g = N * N"
  shows "length c = N * N \<and> orbit4 N c = orbit4 N g"
proof -
  from assms(1) obtain j where "c = (rot90 N ^^ j) g"
    unfolding orbit4_def
    by (metis funpow_0 funpow.simps(2) o_apply insertE singletonD)
  with assms(2) show ?thesis
    by (simp add: orbit4_funpow length_funpow_rot90)
qed

lemma Min_orbit4_member: "Min (orbit4 N g) \<in> orbit4 N g"
  by (rule Min_in) (simp_all add: orbit4_def)

text \<open>
  C1. For every \<open>n \<ge> 1\<close> and every grid \<open>g\<close> of length \<open>n * n\<close>, with the index map of size
  \<open>n\<close>: \<open>canonical_representative\<close> returns a grid \<open>c\<close>, the rotation of \<open>g\<close> by one quarter
  turn has the same canonical representative, and so has the rotation of \<open>g\<close> by any \<open>k\<close>.
\<close>

theorem canonical_representative_orbit_invariant:
  assumes "1 \<le> n" and "length g = nat (n * n)"
  shows "\<exists>c. canonical_representative g n (rotate90_indices n) = Inr c
       \<and> (\<exists>g'. rotate_grid g n 1 (rotate90_indices n) = Inr g'
              \<and> canonical_representative g' n (rotate90_indices n) = Inr c)
       \<and> (\<forall>k. \<exists>g'. rotate_grid g n k (rotate90_indices n) = Inr g'
              \<and> canonical_representative g' n (rotate90_indices n) = Inr c)"
proof -
  define N where "N = nat n"
  with assms have n: "n = int N" and len: "length g = N * N"
    by (simp_all add: nat_mult_distrib)
  have c: "canonical_representative g n (rotate90_indices n) = Inr (Min (orbit4 N g))"
    using len unfolding n by (rule canonical_representative_Min)
  have rot: "\<exists>g'. rotate_grid g n k (rotate90_indices n) = Inr g'
      \<and> canonical_representative g' n (rotate90_indices n) = Inr (Min (orbit4 N g))" for k
  proof -
    let ?g = "(rot90 N ^^ nat (k mod 4)) g"
    have "rotate_grid g n k (rotate90_indices n) = Inr ?g"
      using len by (simp only: rotate_grid_def n rotate_loop_rot90)
    moreover have "length ?g = N * N"
      using len by (rule length_funpow_rot90)
    then have "canonical_representative ?g n (rotate90_indices n) = Inr (Min (orbit4 N ?g))"
      unfolding n by (rule canonical_representative_Min)
    moreover have "orbit4 N ?g = orbit4 N g"
      using len by (rule orbit4_funpow)
    ultimately show ?thesis by simp
  qed
  from c rot [of 1] rot show ?thesis by blast
qed

theorem canonical_representative_orbit_invariant_witness:
  "(1::int) \<le> 2 \<and> length [1, 0, 0, 0 :: int] = nat (2 * 2)
   \<and> canonical_representative [1, 0, 0, 0] 2 (rotate90_indices 2) = Inr [0, 0, 0, 1]
   \<and> rotate_grid [1, 0, 0, 0] 2 1 (rotate90_indices 2) = Inr [0, 1, 0, 0]
   \<and> canonical_representative [0, 1, 0, 0] 2 (rotate90_indices 2) = Inr [0, 0, 0, 1]"
proof -
  have h1: "(1::int) \<le> 2" and h2: "length [1, 0, 0, 0 :: int] = nat (2 * 2)"
    by simp_all
  have v: "rotate90_indices 2 = [2, 0, 3, 1]"
    by (simp add: rotate90_indices_def py_range_def upt_rec)
  have r: "rotate_grid [1, 0, 0, 0] 2 1 (rotate90_indices 2) = Inr [0, 1, 0, 0]"
    by (simp add: v rotate_grid_def tuple_get_def)
  have c: "canonical_representative [1, 0, 0, 0] 2 (rotate90_indices 2) = Inr [0, 0, 0, 1]"
    by (simp add: v canonical_representative_def numeral_3_eq_3 tuple_get_def)
  from canonical_representative_orbit_invariant [OF h1 h2] r c
  have "canonical_representative [0, 1, 0, 0] 2 (rotate90_indices 2) = Inr [0, 0, 0, 1]"
    by auto
  with h1 h2 r c show ?thesis by blast
qed

text \<open>
  C8. For every \<open>n \<ge> 1\<close> and every grid \<open>g\<close> of length \<open>n * n\<close>, with the index map of size
  \<open>n\<close>: the canonical representative \<open>c\<close> of \<open>g\<close> is its own canonical representative.
\<close>

theorem canonical_representative_idempotent:
  assumes "1 \<le> n" and "length g = nat (n * n)"
  shows "\<exists>c. canonical_representative g n (rotate90_indices n) = Inr c
       \<and> canonical_representative c n (rotate90_indices n) = Inr c"
proof -
  define N where "N = nat n"
  with assms have n: "n = int N" and len: "length g = N * N"
    by (simp_all add: nat_mult_distrib)
  let ?c = "Min (orbit4 N g)"
  have c: "canonical_representative g n (rotate90_indices n) = Inr ?c"
    using len unfolding n by (rule canonical_representative_Min)
  have "?c \<in> orbit4 N g" by (rule Min_orbit4_member)
  then have m: "length ?c = N * N \<and> orbit4 N ?c = orbit4 N g"
    using len by (rule orbit4_member)
  then have "canonical_representative ?c n (rotate90_indices n) = Inr (Min (orbit4 N ?c))"
    unfolding n by (intro canonical_representative_Min) simp
  with m have "canonical_representative ?c n (rotate90_indices n) = Inr ?c" by simp
  with c show ?thesis by blast
qed

theorem canonical_representative_idempotent_witness:
  "(1::int) \<le> 2 \<and> length [1, 1, 0, 0 :: int] = nat (2 * 2)
   \<and> canonical_representative [1, 1, 0, 0] 2 (rotate90_indices 2) = Inr [0, 0, 1, 1]
   \<and> canonical_representative [0, 0, 1, 1] 2 (rotate90_indices 2) = Inr [0, 0, 1, 1]"
proof -
  have h1: "(1::int) \<le> 2" and h2: "length [1, 1, 0, 0 :: int] = nat (2 * 2)"
    by simp_all
  have v: "rotate90_indices 2 = [2, 0, 3, 1]"
    by (simp add: rotate90_indices_def py_range_def upt_rec)
  have c: "canonical_representative [1, 1, 0, 0] 2 (rotate90_indices 2) = Inr [0, 0, 1, 1]"
    by (simp add: v canonical_representative_def numeral_3_eq_3 tuple_get_def)
  from canonical_representative_idempotent [OF h1 h2] c
  have "canonical_representative [0, 0, 1, 1] 2 (rotate90_indices 2) = Inr [0, 0, 1, 1]"
    by auto
  with h1 h2 c show ?thesis by blast
qed

section \<open>The integer encoding\<close>

lemma encode_step: "push_bit 1 (v :: int) OR (b AND 1) = 2 * v + b mod 2"
proof -
  have "b mod 2 = 0 \<or> b mod 2 = 1" by presburger
  then show ?thesis
  proof
    assume "b mod 2 = 0"
    then show ?thesis by (simp add: and_one_eq push_bit_eq_mult)
  next
    assume "b mod 2 = 1"
    then show ?thesis by (simp add: and_one_eq push_bit_eq_mult or_one_eq)
  qed
qed

lemma bits_to_int_Nil [simp]: "bits_to_int [] = 0"
  by (simp add: bits_to_int_def)

lemma bits_to_int_snoc: "bits_to_int (xs @ [b]) = 2 * bits_to_int xs + b mod 2"
proof -
  have "bits_to_int (xs @ [b]) = push_bit 1 (bits_to_int xs) OR (b AND 1)"
    by (simp only: bits_to_int_def foldl_append foldl.simps)
  then show ?thesis by (simp only: encode_step)
qed

lemma bits_to_int_bounds: "0 \<le> bits_to_int xs \<and> bits_to_int xs < 2 ^ length xs"
proof (induction xs rule: rev_induct)
  case Nil
  show ?case by simp
next
  case (snoc b xs)
  have "0 \<le> b mod 2" and "b mod 2 < 2" by simp_all
  moreover from snoc have "0 \<le> bits_to_int xs" and "bits_to_int xs + 1 \<le> 2 ^ length xs"
    by simp_all
  ultimately have "0 \<le> 2 * bits_to_int xs + b mod 2"
    and "2 * bits_to_int xs + b mod 2 < 2 * 2 ^ length xs"
    by linarith+
  then show ?case
    by (simp add: bits_to_int_snoc)
qed

lemma bits_to_int_Cons: "bits_to_int (a # xs) = a mod 2 * 2 ^ length xs + bits_to_int xs"
proof (induction xs rule: rev_induct)
  case Nil
  have "bits_to_int ([] @ [a]) = 2 * bits_to_int [] + a mod 2" by (rule bits_to_int_snoc)
  then show ?case by simp
next
  case (snoc b xs)
  have "bits_to_int (a # xs @ [b]) = bits_to_int ((a # xs) @ [b])" by simp
  also have "\<dots> = 2 * bits_to_int (a # xs) + b mod 2" by (rule bits_to_int_snoc)
  finally show ?case
    by (simp add: snoc bits_to_int_snoc algebra_simps)
qed

lemma is_bits_Cons: "is_bits (a # xs) \<longleftrightarrow> (a = 0 \<or> a = 1) \<and> is_bits xs"
  by (auto simp: is_bits_def)

lemma bits_less_iff:
  assumes "length a = length b" and "is_bits a" and "is_bits b"
  shows "a < b \<longleftrightarrow> bits_to_int a < bits_to_int b"
  using assms
proof (induction a b rule: list_induct2)
  case Nil
  show ?case by simp
next
  case (Cons x xs y ys)
  from Cons.prems have x: "x = 0 \<or> x = 1" and y: "y = 0 \<or> y = 1"
    and xs: "is_bits xs" and ys: "is_bits ys"
    by (simp_all add: is_bits_Cons)
  have IH: "xs < ys \<longleftrightarrow> bits_to_int xs < bits_to_int ys"
    using xs ys by (rule Cons.IH)
  have bx: "0 \<le> bits_to_int xs" "bits_to_int xs < 2 ^ length ys"
    using bits_to_int_bounds [of xs] Cons.hyps by simp_all
  have by': "0 \<le> bits_to_int ys" "bits_to_int ys < 2 ^ length ys"
    using bits_to_int_bounds [of ys] by simp_all
  from x y show ?case
  proof (elim disjE)
    assume "x = 0" "y = 0"
    then show ?thesis using IH Cons.hyps by (simp add: bits_to_int_Cons)
  next
    assume "x = 0" "y = 1"
    then show ?thesis using bx by' Cons.hyps by (simp add: bits_to_int_Cons)
  next
    assume "x = 1" "y = 0"
    then show ?thesis using bx by' Cons.hyps by (simp add: bits_to_int_Cons)
  next
    assume "x = 1" "y = 1"
    then show ?thesis using IH Cons.hyps by (simp add: bits_to_int_Cons)
  qed
qed

lemma bits_to_int_inj:
  assumes "length a = length b" and "is_bits a" and "is_bits b"
    and "bits_to_int a = bits_to_int b"
  shows "a = b"
proof (rule ccontr)
  assume "a \<noteq> b"
  then have "a < b \<or> b < a" by auto
  then have "bits_to_int a < bits_to_int b \<or> bits_to_int b < bits_to_int a"
    using assms(1-3) by (simp add: bits_less_iff)
  with assms(4) show False by simp
qed

lemma bits_le_iff:
  assumes "length a = length b" and "is_bits a" and "is_bits b"
  shows "a \<le> b \<longleftrightarrow> bits_to_int a \<le> bits_to_int b"
proof -
  have "b < a \<longleftrightarrow> bits_to_int b < bits_to_int a"
    using assms by (intro bits_less_iff) simp_all
  then show ?thesis by (simp add: not_less [symmetric])
qed

lemma drop_bit_encoding:
  assumes "is_bits g" and "i < length g"
  shows "drop_bit (length g - 1 - i) (bits_to_int g) mod 2 = g ! i"
  using assms
proof (induction g rule: rev_induct)
  case Nil
  then show ?case by simp
next
  case (snoc b xs)
  from snoc.prems(1) have b: "b = 0 \<or> b = 1" and xs: "is_bits xs"
    by (auto simp: is_bits_def)
  show ?case
  proof (cases "i < length xs")
    case True
    then have "length (xs @ [b]) - 1 - i = Suc (length xs - 1 - i)" by simp
    moreover have "(2 * bits_to_int xs + b mod 2) div 2 = bits_to_int xs"
      using b by auto
    ultimately have "drop_bit (length (xs @ [b]) - 1 - i) (bits_to_int (xs @ [b])) =
        drop_bit (length xs - 1 - i) (bits_to_int xs)"
      by (simp add: bits_to_int_snoc drop_bit_Suc)
    with True xs snoc.IH show ?thesis by (simp add: nth_append)
  next
    case False
    with snoc.prems(2) have "i = length xs" by simp
    with b show ?thesis by (auto simp: bits_to_int_snoc)
  qed
qed

lemma int_to_bits_bits_to_int:
  assumes "is_bits g"
  shows "int_to_bits (bits_to_int g) (int (length g)) = g"
proof (rule nth_equalityI)
  show "length (int_to_bits (bits_to_int g) (int (length g))) = length g"
    by (simp add: int_to_bits_def py_range_def)
next
  fix i
  assume "i < length (int_to_bits (bits_to_int g) (int (length g)))"
  then have i: "i < length g" by (simp add: int_to_bits_def py_range_def)
  then have "nat (int (length g) - 1 - int i) = length g - 1 - i" by simp
  with i have "int_to_bits (bits_to_int g) (int (length g)) ! i =
      drop_bit (length g - 1 - i) (bits_to_int g) mod 2"
    by (simp add: int_to_bits_def py_range_def and_one_eq)
  also have "\<dots> = g ! i" using assms i by (rule drop_bit_encoding)
  finally show "int_to_bits (bits_to_int g) (int (length g)) ! i = g ! i" .
qed

lemma set_rot90: "length g = N * N \<Longrightarrow> set (rot90 N g) \<subseteq> set g"
  by (auto simp: rot90_def src_index_less)

lemma is_bits_rot90: "is_bits g \<Longrightarrow> length g = N * N \<Longrightarrow> is_bits (rot90 N g)"
  using set_rot90 [of g N] by (auto simp: is_bits_def)

lemma is_bits_funpow_rot90:
  "is_bits g \<Longrightarrow> length g = N * N \<Longrightarrow> is_bits ((rot90 N ^^ j) g)"
  by (induction j) (simp_all add: is_bits_rot90 length_funpow_rot90)

lemma orbit4_funpow_member: "(rot90 N ^^ (j mod 4)) g \<in> orbit4 N g"
proof -
  have "j mod 4 = 0 \<or> j mod 4 = 1 \<or> j mod 4 = 2 \<or> j mod 4 = 3" by presburger
  then show ?thesis
    by (auto simp: orbit4_def numeral_2_eq_2 numeral_3_eq_3)
qed

lemma orbit4_is_funpow:
  assumes "c \<in> orbit4 N g"
  shows "\<exists>j<4. c = (rot90 N ^^ j) g"
proof -
  from assms have "c = (rot90 N ^^ 0) g \<or> c = (rot90 N ^^ 1) g \<or> c = (rot90 N ^^ 2) g
      \<or> c = (rot90 N ^^ 3) g"
    by (auto simp: orbit4_def numeral_2_eq_2 numeral_3_eq_3)
  moreover have "(0::nat) < 4" "(1::nat) < 4" "(2::nat) < 4" "(3::nat) < 4" by simp_all
  ultimately show ?thesis by blast
qed

text \<open>
  C9. For lists \<open>a\<close> and \<open>b\<close> of bits of the same length, \<open>a < b\<close> in the tuple order if and
  only if \<open>bits_to_int a < bits_to_int b\<close>. For \<open>n \<ge> 1\<close> and a grid \<open>g\<close> of \<open>n * n\<close> bits, with
  the index map of size \<open>n\<close>: \<open>int_to_bits (bits_to_int g) (n * n)\<close> is \<open>g\<close> again, and the
  canonical representative of \<open>g\<close> is one of the rotations of \<open>g\<close> and is below every
  rotation of \<open>g\<close> both as a tuple and by its integer encoding.
\<close>

theorem lexicographic_order_is_encoding_order:
  assumes "is_bits a" and "is_bits b" and "length a = length b"
    and "1 \<le> n" and "is_bits g" and "length g = nat (n * n)"
  shows "(a < b \<longleftrightarrow> bits_to_int a < bits_to_int b)
       \<and> int_to_bits (bits_to_int g) (n * n) = g
       \<and> (\<exists>c. canonical_representative g n (rotate90_indices n) = Inr c
              \<and> (\<exists>k. rotate_grid g n k (rotate90_indices n) = Inr c)
              \<and> (\<forall>k. \<exists>g'. rotate_grid g n k (rotate90_indices n) = Inr g'
                     \<and> c \<le> g' \<and> bits_to_int c \<le> bits_to_int g'))"
proof -
  define N where "N = nat n"
  with assms have n: "n = int N" and len: "length g = N * N"
    by (simp_all add: nat_mult_distrib)
  have order: "a < b \<longleftrightarrow> bits_to_int a < bits_to_int b"
    using assms(3,1,2) by (rule bits_less_iff)
  have "n * n = int (length g)"
    by (simp add: n len)
  then have round: "int_to_bits (bits_to_int g) (n * n) = g"
    using assms(5) by (simp only: int_to_bits_bits_to_int)
  let ?c = "Min (orbit4 N g)"
  have c: "canonical_representative g n (rotate90_indices n) = Inr ?c"
    using len unfolding n by (rule canonical_representative_Min)
  have mem: "?c \<in> orbit4 N g" by (rule Min_orbit4_member)
  then obtain j where j: "j < 4" "?c = (rot90 N ^^ j) g"
    using orbit4_is_funpow by blast
  have rot: "rotate_grid g n k (rotate90_indices n) = Inr ((rot90 N ^^ nat (k mod 4)) g)" for k
    using len by (simp only: rotate_grid_def n rotate_loop_rot90)
  have "nat (int j mod 4) = j" using j(1) by simp
  with rot [of "int j"] j(2) have isrot: "\<exists>k. rotate_grid g n k (rotate90_indices n) = Inr ?c"
    by auto
  have cbits: "is_bits ?c" and clen: "length ?c = N * N"
    using j(2) assms(5) len by (simp_all add: is_bits_funpow_rot90 length_funpow_rot90)
  have least: "\<exists>g'. rotate_grid g n k (rotate90_indices n) = Inr g'
      \<and> ?c \<le> g' \<and> bits_to_int ?c \<le> bits_to_int g'" for k
  proof -
    let ?g = "(rot90 N ^^ nat (k mod 4)) g"
    have "nat (k mod 4) mod 4 = nat (k mod 4)"
      by (simp add: nat_mod_distrib)
    then have "?g \<in> orbit4 N g"
      using orbit4_funpow_member [where N = N and j = "nat (k mod 4)" and g = g] by simp
    then have le: "?c \<le> ?g"
      by (intro Min_le) (simp_all add: orbit4_def)
    have "is_bits ?g" and "length ?g = N * N"
      using assms(5) len by (simp_all add: is_bits_funpow_rot90 length_funpow_rot90)
    with cbits clen le have "bits_to_int ?c \<le> bits_to_int ?g"
      by (simp add: bits_le_iff)
    with le rot [of k] show ?thesis by blast
  qed
  from c isrot least have "\<exists>c. canonical_representative g n (rotate90_indices n) = Inr c
      \<and> (\<exists>k. rotate_grid g n k (rotate90_indices n) = Inr c)
      \<and> (\<forall>k. \<exists>g'. rotate_grid g n k (rotate90_indices n) = Inr g'
             \<and> c \<le> g' \<and> bits_to_int c \<le> bits_to_int g')"
    by blast
  with order round show ?thesis by blast
qed

theorem lexicographic_order_is_encoding_order_witness:
  "is_bits [0, 1, 1, 0] \<and> is_bits [1, 0, 0, 1] \<and> length [0, 1, 1, 0 :: int] = length [1, 0, 0, 1 :: int]
   \<and> (1::int) \<le> 2 \<and> is_bits [1, 1, 0, 0] \<and> length [1, 1, 0, 0 :: int] = nat (2 * 2)
   \<and> [0, 1, 1, 0] < [1, 0, 0, 1 :: int]
   \<and> bits_to_int [0, 1, 1, 0] = 6 \<and> bits_to_int [1, 0, 0, 1] = 9
   \<and> bits_to_int [1, 1, 0, 0] = 12
   \<and> int_to_bits 12 (2 * 2) = [1, 1, 0, 0]"
proof -
  have h: "is_bits [0, 1, 1, 0]" "is_bits [1, 0, 0, 1]"
      "length [0, 1, 1, 0 :: int] = length [1, 0, 0, 1 :: int]"
      "(1::int) \<le> 2" "is_bits [1, 1, 0, 0]" "length [1, 1, 0, 0 :: int] = nat (2 * 2)"
    by (simp_all add: is_bits_def)
  have e: "bits_to_int [0, 1, 1, 0] = 6" "bits_to_int [1, 0, 0, 1] = 9"
      "bits_to_int [1, 1, 0, 0] = 12"
    by (simp_all add: bits_to_int_def)
  have l: "[0, 1, 1, 0] < [1, 0, 0, 1 :: int]" by simp
  from lexicographic_order_is_encoding_order [OF h]
  have "int_to_bits (bits_to_int [1, 1, 0, 0]) (2 * 2) = [1, 1, 0, 0]"
    by (rule conjunct2 [THEN conjunct1])
  then have r: "int_to_bits 12 (2 * 2) = [1, 1, 0, 0]" by (simp only: e)
  from h e l r show ?thesis by blast
qed

section \<open>The size of an orbit\<close>

lemma is_bits_low_bits: "is_bits (low_bits g)"
proof -
  have "b mod 2 = 0 \<or> b mod 2 = 1" for b :: int by presburger
  then show ?thesis by (auto simp: is_bits_def low_bits_def)
qed

lemma bits_to_int_low_bits: "bits_to_int (low_bits g) = bits_to_int g"
proof (induction g rule: rev_induct)
  case Nil
  show ?case by (simp add: low_bits_def)
next
  case (snoc b xs)
  have "low_bits (xs @ [b]) = low_bits xs @ [b mod 2]"
    by (simp add: low_bits_def)
  with snoc show ?case
    by (simp add: bits_to_int_snoc)
qed

lemma rot90_low_bits:
  assumes "length g = N * N"
  shows "rot90 N (low_bits g) = low_bits (rot90 N g)"
  using assms by (simp add: rot90_def low_bits_def src_index_less)

lemma encoding_rot90_low_bits:
  assumes "length g = N * N"
  shows "bits_to_int (rot90 N g) = bits_to_int (rot90 N (low_bits g))"
  using assms by (simp add: rot90_low_bits bits_to_int_low_bits)

lemma orbit_loop_rot90:
  assumes "length g = N * N"
  shows "orbit_loop 4 g {} (rotate90_indices (int N)) =
     Inr (bits_to_int ` orbit4 N g)"
proof -
  have "orbit_loop (Suc (Suc (Suc (Suc 0)))) g {} (rotate90_indices (int N)) =
      Inr {bits_to_int (rot90 N (rot90 N (rot90 N g))), bits_to_int (rot90 N (rot90 N g)),
           bits_to_int (rot90 N g), bits_to_int g}"
    using assms by (simp add: apply_map_rot90)
  moreover have "{bits_to_int (rot90 N (rot90 N (rot90 N g))), bits_to_int (rot90 N (rot90 N g)),
           bits_to_int (rot90 N g), bits_to_int g} = bits_to_int ` orbit4 N g"
    by (auto simp: orbit4_def)
  ultimately show ?thesis by (simp add: numeral_eq_Suc)
qed

lemma orbit4_low_bits:
  assumes "length g = N * N"
  shows "bits_to_int ` orbit4 N g = bits_to_int ` orbit4 N (low_bits g)"
proof -
  have l: "length (low_bits g) = N * N" using assms by (simp add: low_bits_def)
  have 1: "rot90 N (low_bits g) = low_bits (rot90 N g)"
    using assms by (rule rot90_low_bits)
  have 2: "rot90 N (low_bits (rot90 N g)) = low_bits (rot90 N (rot90 N g))"
    by (rule rot90_low_bits) simp
  have 3: "rot90 N (low_bits (rot90 N (rot90 N g))) = low_bits (rot90 N (rot90 N (rot90 N g)))"
    by (rule rot90_low_bits) simp
  show ?thesis
    by (simp add: orbit4_def 1 2 3 bits_to_int_low_bits)
qed

lemma bits_to_int_inj_on_orbit4:
  assumes "is_bits h" and "length h = N * N"
  shows "inj_on bits_to_int (orbit4 N h)"
proof (rule inj_onI)
  fix a b
  assume a: "a \<in> orbit4 N h" and b: "b \<in> orbit4 N h" and e: "bits_to_int a = bits_to_int b"
  from a obtain i where i: "a = (rot90 N ^^ i) h" using orbit4_is_funpow by blast
  from b obtain j where j: "b = (rot90 N ^^ j) h" using orbit4_is_funpow by blast
  have "length a = length b" and "is_bits a" and "is_bits b"
    using assms by (simp_all add: i j length_funpow_rot90 is_bits_funpow_rot90)
  then show "a = b" using e by (rule bits_to_int_inj)
qed

lemma card_cycle4:
  assumes "f a = b" and "f b = c" and "f c = d" and "f d = a"
  shows "card {a, b, c, d} = 1 \<or> card {a, b, c, d} = 2 \<or> card {a, b, c, d} = 4"
proof -
  consider (fixed) "a = b" | (half) "a \<noteq> b" "a = c" | (free) "a \<noteq> b" "a \<noteq> c"
    by blast
  then show ?thesis
  proof cases
    case fixed
    with assms have "b = c" and "c = d" by auto
    with fixed show ?thesis by simp
  next
    case half
    with assms have "b = d" by auto
    with half have "{a, b, c, d} = {a, b}" by auto
    with half show ?thesis by simp
  next
    case free
    have "b \<noteq> c" using free(1) assms by metis
    moreover have "c \<noteq> d" using free(1) assms by metis
    moreover have "d \<noteq> a" using free(1) assms by metis
    moreover have "b \<noteq> d" using free(2) assms by metis
    ultimately show ?thesis using free by simp
  qed
qed

lemma card_orbit4:
  assumes "length h = N * N"
  shows "card (orbit4 N h) = 1 \<or> card (orbit4 N h) = 2 \<or> card (orbit4 N h) = 4"
  unfolding orbit4_def
  by (rule card_cycle4 [where f = "rot90 N"]) (simp_all add: rot90_order4 assms)

text \<open>
  C3. For every \<open>n \<ge> 1\<close> and every grid \<open>g\<close> of length \<open>n * n\<close>, with the index map of size
  \<open>n\<close>: \<open>orbit_size\<close> returns 1, 2 or 4 (never 3, and it does not raise).
\<close>

theorem orbit_size_1_2_4:
  assumes "1 \<le> n" and "length g = nat (n * n)"
  shows "orbit_size g n (rotate90_indices n) = Inr 1
       \<or> orbit_size g n (rotate90_indices n) = Inr 2
       \<or> orbit_size g n (rotate90_indices n) = Inr 4"
proof -
  define N where "N = nat n"
  with assms have n: "n = int N" and len: "length g = N * N"
    by (simp_all add: nat_mult_distrib)
  let ?h = "low_bits g"
  have h: "is_bits ?h" "length ?h = N * N"
    using len by (simp_all only: is_bits_low_bits) (simp add: low_bits_def)
  have "orbit_size g n (rotate90_indices n) = Inr (card (bits_to_int ` orbit4 N g))"
    using len by (simp add: orbit_size_def n orbit_loop_rot90)
  also have "bits_to_int ` orbit4 N g = bits_to_int ` orbit4 N ?h"
    using len by (rule orbit4_low_bits)
  also have "card (bits_to_int ` orbit4 N ?h) = card (orbit4 N ?h)"
    using h by (intro card_image bits_to_int_inj_on_orbit4)
  finally have "orbit_size g n (rotate90_indices n) = Inr (card (orbit4 N ?h))" .
  with card_orbit4 [OF h(2)] show ?thesis by auto
qed

theorem orbit_size_1_2_4_witness:
  "(1::int) \<le> 2 \<and> length [0, 1, 1, 0 :: int] = nat (2 * 2)
   \<and> orbit_size [0, 1, 1, 0] 2 (rotate90_indices 2) = Inr 2"
proof -
  have h1: "(1::int) \<le> 2" and h2: "length [0, 1, 1, 0 :: int] = nat (2 * 2)"
    by simp_all
  have v: "rotate90_indices 2 = [2, 0, 3, 1]"
    by (simp add: rotate90_indices_def py_range_def upt_rec)
  have "orbit_loop (Suc (Suc (Suc (Suc 0)))) [0, 1, 1, 0] {} [2, 0, 3, 1] = Inr {9, 6, 9, 6}"
    by (simp add: tuple_get_def bits_to_int_def)
  moreover have "card {9, 6, 9, 6 :: int} = 2" by code_simp
  ultimately have n1: "orbit_size [0, 1, 1, 0] 2 (rotate90_indices 2) \<noteq> Inr 1"
    and n4: "orbit_size [0, 1, 1, 0] 2 (rotate90_indices 2) \<noteq> Inr 4"
    by (simp_all add: v orbit_size_def numeral_eq_Suc)
  from orbit_size_1_2_4 [OF h1 h2] n1 n4
  have "orbit_size [0, 1, 1, 0] 2 (rotate90_indices 2) = Inr 2" by blast
  with h1 h2 show ?thesis by blast
qed

section \<open>Empty inputs of the estimators\<close>

text \<open>
  C10. Called on the empty pair sequence, \<open>empirical_mi\<close> returns 0.0 and raises nothing,
  whatever the float arithmetic: the loop over the observed pairs, which holds every
  division by \<open>N\<close>, does not run.
\<close>

theorem empirical_mi_empty: "empirical_mi ops [] = Inr (f_zero ops)"
  by (simp add: empirical_mi_def counter_def)

text \<open>
  C6 as stated fails: the empty sample sequence is not rejected before the division, the
  error is the division's own (shown for size 3, with the list length standing in for the
  compressor).
\<close>

theorem sci_via_compression_empty_counterexample:
  "sci_via_compression length [] 3 (rotate90_indices 3) = Inl ZeroDivisionError
   \<and> \<not> rejected_before_division (sci_via_compression length [] 3 (rotate90_indices 3))"
  by (simp add: rejected_before_division_def sci_via_compression_def py_truediv_def)

section \<open>Counters\<close>

lemma keys_counter_add: "fst ` set (counter_add k c) = insert k (fst ` set c)"
  by (induction k c rule: counter_add.induct) (simp_all add: insert_commute)

lemma distinct_counter_add:
  "distinct (map fst c) \<Longrightarrow> distinct (map fst (counter_add k c))"
proof (induction c)
  case Nil
  show ?case by simp
next
  case (Cons p c)
  obtain k' v where p: "p = (k', v)" by (cases p)
  from Cons have d: "distinct (map fst (counter_add k c))" by simp
  have "fst ` set (counter_add k c) = insert k (fst ` set c)" by (rule keys_counter_add)
  with Cons.prems p d show ?case by simp
qed

lemma counter_get_counter_add:
  "counter_get (counter_add k c) k' = counter_get c k' + (if k = k' then 1 else 0)"
  by (induction c) (auto simp: counter_get_def)

lemma keys_fold_counter_add:
  "fst ` set (fold counter_add xs c) = set xs \<union> fst ` set c"
  by (induction xs arbitrary: c) (simp_all add: keys_counter_add)

lemma distinct_fold_counter_add:
  "distinct (map fst c) \<Longrightarrow> distinct (map fst (fold counter_add xs c))"
  by (induction xs arbitrary: c) (simp_all add: distinct_counter_add)

lemma counter_get_fold_counter_add:
  "counter_get (fold counter_add xs c) k = counter_get c k + count_list xs k"
  by (induction xs arbitrary: c) (simp_all add: counter_get_counter_add)

lemma keys_counter: "fst ` set (counter xs) = set xs"
  by (simp add: counter_def keys_fold_counter_add)

lemma distinct_counter: "distinct (map fst (counter xs))"
  by (simp add: counter_def distinct_fold_counter_add)

lemma counter_get_counter: "counter_get (counter xs) k = count_list xs k"
proof -
  have "counter_get [] k = 0" by (simp add: counter_get_def)
  then show ?thesis by (simp add: counter_def counter_get_fold_counter_add)
qed

lemma counter_item:
  assumes "(k, v) \<in> set (counter xs)"
  shows "v = count_list xs k \<and> k \<in> set xs"
proof -
  from assms have "map_of (counter xs) k = Some v"
    by (simp add: distinct_counter)
  then have "counter_get (counter xs) k = v" by (simp add: counter_get_def)
  then have "v = count_list xs k" by (simp add: counter_get_counter)
  moreover from assms have "k \<in> fst ` set (counter xs)" by force
  then have "k \<in> set xs" by (simp only: keys_counter)
  ultimately show ?thesis by simp
qed

lemma count_list_pos: "x \<in> set xs \<Longrightarrow> 0 < count_list xs x"
  by (induction xs) auto

section \<open>The plug-in estimate\<close>

lemma keys_counter_add_list:
  "map fst (counter_add k c) = (if k \<in> fst ` set c then map fst c else map fst c @ [k])"
  by (induction k c rule: counter_add.induct) auto

lemma counter_snoc: "counter (xs @ [x]) = counter_add x (counter xs)"
  by (simp add: counter_def)

lemma observed_snoc:
  "observed (xs @ [x]) = (if x \<in> set xs then observed xs else observed xs @ [x])"
  by (simp add: observed_def)

lemma keys_counter_observed: "map fst (counter xs) = observed xs"
proof (induction xs rule: rev_induct)
  case Nil
  show ?case by (simp add: counter_def observed_def)
next
  case (snoc x xs)
  have "fst ` set (counter xs) = set xs" by (rule keys_counter)
  with snoc show ?case
    by (simp only: counter_snoc keys_counter_add_list observed_snoc)
qed

lemma observed_distinct_set: "distinct (observed xs) \<and> set (observed xs) = set xs"
  by (simp add: observed_def)

lemma mi_loop_step:
  assumes "0 < length pairs" and "nxy = count_list pairs (x, y)"
  shows "mi_loop ops (((x, y), nxy) # items) (counter (map fst pairs)) (counter (map snd pairs))
            (length pairs) mi =
     (if f_is_zero ops (f_mul ops (x_freq ops pairs x) (y_freq ops pairs y))
      then Inl ZeroDivisionError
      else if f_nonpos ops (freq_ratio ops pairs (x, y)) then Inl ValueError
      else mi_loop ops items (counter (map fst pairs)) (counter (map snd pairs)) (length pairs)
             (f_add ops mi (plug_in_term ops pairs (x, y))))"
  using assms
  by (simp add: int_truediv_def float_truediv_def float_log2_def counter_get_counter
      x_freq_def y_freq_def joint_freq_def freq_ratio_def plug_in_term_def)

lemma mi_loop_plug_in_result:
  assumes "0 < length pairs"
    and "\<And>k v. (k, v) \<in> set items \<Longrightarrow> v = count_list pairs k"
  shows "mi_loop ops items (counter (map fst pairs)) (counter (map snd pairs)) (length pairs) mi =
     plug_in_result ops pairs (map fst items) mi"
  using assms(2)
proof (induction items arbitrary: mi)
  case Nil
  show ?case by simp
next
  case (Cons item items)
  obtain x y nxy where item: "item = ((x, y), nxy)" by (cases item) auto
  have nxy: "nxy = count_list pairs (x, y)"
    by (rule Cons.prems) (simp add: item)
  have IH: "mi_loop ops items (counter (map fst pairs)) (counter (map snd pairs)) (length pairs) mi' =
      plug_in_result ops pairs (map fst items) mi'" for mi'
    by (rule Cons.IH) (rule Cons.prems, simp)
  show ?case
    unfolding item by (simp only: mi_loop_step [OF assms(1) nxy] IH list.map fst_conv snd_conv
        plug_in_result.simps)
qed

lemma empirical_mi_result:
  assumes "pairs \<noteq> []"
  shows "empirical_mi ops pairs = plug_in_result ops pairs (observed pairs) (f_zero ops)"
proof -
  have N: "0 < length pairs" using assms by simp
  have "v = count_list pairs k" if "(k, v) \<in> set (counter pairs)" for k v
    using counter_item [OF that] by simp
  with N have "empirical_mi ops pairs =
      plug_in_result ops pairs (map fst (counter pairs)) (f_zero ops)"
    unfolding empirical_mi_def by (rule mi_loop_plug_in_result)
  then show ?thesis by (simp only: keys_counter_observed)
qed

lemma plug_in_result_defined:
  "list_all (term_defined ops pairs) xys \<Longrightarrow>
   plug_in_result ops pairs xys mi = Inr (plug_in_sum ops pairs xys mi)"
  by (induction xys arbitrary: mi) (simp_all add: plug_in_sum_def term_defined_def)

text \<open>
  C7. For every non-empty sequence of integer pairs, \<open>empirical_mi\<close> returns the plug-in
  estimate: the terms \<open>p(x,y) * log2 (p(x,y) / (p(x) * p(y)))\<close> of exactly the distinct
  observed pairs, the frequencies being counts divided by the sample size, each computed
  and added to the sum with the float operations, one pair after the other in the order of
  first occurrence. A pair that is not observed has no term. The call raises exactly when
  a term is not defined in the float arithmetic (a frequency product that is a zero, a ratio
  that is not positive), and returns the sum when every term is defined.
\<close>

theorem empirical_mi_plug_in:
  assumes "pairs \<noteq> []"
  shows "empirical_mi ops pairs = plug_in_result ops pairs (observed pairs) (f_zero ops)
       \<and> (list_all (term_defined ops pairs) (observed pairs) \<longrightarrow>
            empirical_mi ops pairs = Inr (plug_in_sum ops pairs (observed pairs) (f_zero ops)))
       \<and> distinct (observed pairs) \<and> set (observed pairs) = set pairs"
proof -
  have res: "empirical_mi ops pairs = plug_in_result ops pairs (observed pairs) (f_zero ops)"
    using assms by (rule empirical_mi_result)
  have "empirical_mi ops pairs = Inr (plug_in_sum ops pairs (observed pairs) (f_zero ops))"
    if "list_all (term_defined ops pairs) (observed pairs)"
    using that by (simp only: res plug_in_result_defined)
  with res observed_distinct_set [of pairs] show ?thesis by blast
qed

theorem empirical_mi_plug_in_witness:
  "[(0, 0), (1, 1), (0, 0), (1, 1)] \<noteq> ([] :: (int \<times> int) list)
   \<and> observed [(0, 0), (1, 1), (0, 0), (1, 1)] = [(0, 0), (1, 1 :: int) :: int \<times> int]
   \<and> list_all (term_defined exact_ops [(0, 0), (1, 1), (0, 0), (1, 1)])
        (observed [(0, 0), (1, 1), (0, 0), (1, 1)])
   \<and> plug_in_sum exact_ops [(0, 0), (1, 1), (0, 0), (1, 1)] [(0, 0), (1, 1)] 0 = 1
   \<and> empirical_mi exact_ops [(0, 0), (1, 1), (0, 0), (1, 1)] = Inr 1"
proof -
  let ?ps = "[(0, 0), (1, 1), (0, 0), (1, 1)] :: (int \<times> int) list"
  have h: "?ps \<noteq> []" by simp
  have o: "observed ?ps = [(0, 0), (1, 1)]" by (simp add: observed_def)
  have d: "list_all (term_defined exact_ops ?ps) (observed ?ps)"
    by (simp add: o term_defined_def exact_ops_def x_freq_def y_freq_def joint_freq_def
        freq_ratio_def)
  have v: "plug_in_sum exact_ops ?ps [(0, 0), (1, 1)] 0 = 1"
    by (simp add: plug_in_sum_def plug_in_term_def exact_ops_def x_freq_def y_freq_def
        joint_freq_def freq_ratio_def)
  from empirical_mi_plug_in [OF h, of exact_ops] d
  have "empirical_mi exact_ops ?ps = Inr (plug_in_sum exact_ops ?ps (observed ?ps) (f_zero exact_ops))"
    by blast
  moreover have "f_zero exact_ops = 0" by (simp add: exact_ops_def)
  ultimately have e: "empirical_mi exact_ops ?ps = Inr 1"
    by (simp only: o v)
  from h o d v e show ?thesis by blast
qed

section \<open>The estimate in exact arithmetic\<close>

text \<open>
  With the operations of exact real arithmetic nothing raises on a non-empty sample, and
  the value is the sum over the set of observed pairs. This is the formula that the loop
  approximates; it is not a statement about doubles, where each step rounds.
\<close>

lemma exact_ops_simps:
  "f_zero exact_ops = 0"
  "f_of_ratio exact_ops m n = real m / real n"
  "f_mul exact_ops a b = a * b"
  "f_div exact_ops a b = a / b"
  "f_add exact_ops a b = a + b"
  "f_log2 exact_ops a = log 2 a"
  "f_is_zero exact_ops a \<longleftrightarrow> a = 0"
  "f_nonpos exact_ops a \<longleftrightarrow> a \<le> 0"
  by (simp_all add: exact_ops_def)

lemma term_defined_exact:
  assumes "xy \<in> set pairs"
  shows "term_defined exact_ops pairs xy"
proof -
  obtain x y where xy: "xy = (x, y)" by (cases xy)
  let ?pxy = "real (count_list pairs (x, y)) / real (length pairs)"
  let ?px = "real (count_list (map fst pairs) x) / real (length pairs)"
  let ?py = "real (count_list (map snd pairs) y) / real (length pairs)"
  have N: "0 < real (length pairs)" using assms by (cases pairs) simp_all
  have "0 < count_list pairs (x, y)" using assms xy by (simp add: count_list_pos)
  with N have pxy: "0 < ?pxy" by simp
  have "x \<in> set (map fst pairs)" using assms xy by force
  then have "0 < count_list (map fst pairs) x" by (rule count_list_pos)
  with N have px: "0 < ?px" by simp
  have "y \<in> set (map snd pairs)" using assms xy by force
  then have "0 < count_list (map snd pairs) y" by (rule count_list_pos)
  with N have py: "0 < ?py" by simp
  from px py have pp: "0 < ?px * ?py" by (rule mult_pos_pos)
  with pxy have q: "0 < ?pxy / (?px * ?py)" by (rule divide_pos_pos)
  from pp have nz: "?px * ?py \<noteq> 0" by (rule less_imp_neq [symmetric])
  from q have np: "\<not> ?pxy / (?px * ?py) \<le> 0" by (simp only: not_le)
  from nz np show ?thesis
    unfolding term_defined_def freq_ratio_def x_freq_def y_freq_def joint_freq_def xy
      fst_conv snd_conv exact_ops_simps
    by (rule conjI)
qed

lemma plug_in_sum_exact:
  "plug_in_sum exact_ops pairs xys mi = mi + sum_list (map (plug_in_term exact_ops pairs) xys)"
proof (induction xys arbitrary: mi)
  case Nil
  show ?case by (simp add: plug_in_sum_def)
next
  case (Cons xy xys)
  have "plug_in_sum exact_ops pairs (xy # xys) mi =
      plug_in_sum exact_ops pairs xys (f_add exact_ops mi (plug_in_term exact_ops pairs xy))"
    by (simp add: plug_in_sum_def)
  also have "f_add exact_ops mi (plug_in_term exact_ops pairs xy) =
      mi + plug_in_term exact_ops pairs xy"
    by (rule exact_ops_simps)
  finally show ?case by (simp add: Cons.IH)
qed

lemma empirical_mi_exact:
  assumes "pairs \<noteq> []"
  shows "empirical_mi exact_ops pairs = Inr (sum (plug_in_term exact_ops pairs) (set pairs))"
proof -
  have "list_all (term_defined exact_ops pairs) (observed pairs)"
    using observed_distinct_set [of pairs] by (simp add: list_all_iff term_defined_exact)
  then have "empirical_mi exact_ops pairs =
      Inr (plug_in_sum exact_ops pairs (observed pairs) (f_zero exact_ops))"
    by (simp only: empirical_mi_result [OF assms] plug_in_result_defined)
  also have "f_zero exact_ops = 0" by (rule exact_ops_simps)
  also have "plug_in_sum exact_ops pairs (observed pairs) 0 =
      sum_list (map (plug_in_term exact_ops pairs) (observed pairs))"
    by (simp add: plug_in_sum_exact)
  also have "\<dots> = sum (plug_in_term exact_ops pairs) (set (observed pairs))"
    using observed_distinct_set [of pairs] by (intro sum_list_distinct_conv_sum_set) simp
  also have "set (observed pairs) = set pairs"
    using observed_distinct_set [of pairs] by simp
  finally show ?thesis .
qed

section \<open>The search scans\<close>

lemma sum_list_rot90:
  assumes "length g = N * N"
  shows "sum_list (rot90 N g) = sum_list g"
proof -
  have "sum_list (rot90 N g) = sum (\<lambda>i. g ! src_index N i) (set [0..<N * N])"
    unfolding rot90_def by (rule interv_sum_list_conv_sum_set_nat)
  also have "\<dots> = sum ((!) g \<circ> src_index N) {0..<N * N}"
    by (simp add: comp_def)
  also have "\<dots> = sum ((!) g) (src_index N ` {0..<N * N})"
    by (rule sum.reindex [symmetric]) (rule src_index_inj)
  also have "\<dots> = sum ((!) g) {0..<length g}"
    by (simp only: src_index_image assms)
  also have "\<dots> = sum_list g"
    by (rule sum_list_sum_nth [symmetric])
  finally show ?thesis .
qed

lemma sum_list_funpow_rot90:
  "length g = N * N \<Longrightarrow> sum_list ((rot90 N ^^ j) g) = sum_list g"
  by (induction j) (simp_all add: sum_list_rot90 length_funpow_rot90)

lemma invariant_cost_orbit4:
  assumes "c \<in> orbit4 N g" and "length g = N * N"
  shows "invariant_cost c n = invariant_cost g n"
proof -
  from assms(1) obtain j where "c = (rot90 N ^^ j) g"
    using orbit4_is_funpow by blast
  with assms(2) show ?thesis
    by (simp add: invariant_cost_def sum_list_funpow_rot90)
qed

lemma invariant_cost_range: "0 \<le> invariant_cost x n \<and> invariant_cost x n < 5"
  by (simp add: invariant_cost_def)

lemma is_grid_Min_orbit4:
  assumes "is_bits x" and "length x = N * N"
  shows "is_bits (Min (orbit4 N x)) \<and> length (Min (orbit4 N x)) = N * N"
proof -
  have "Min (orbit4 N x) \<in> orbit4 N x" by (rule Min_orbit4_member)
  then obtain j where "Min (orbit4 N x) = (rot90 N ^^ j) x"
    using orbit4_is_funpow by blast
  with assms show ?thesis
    by (simp add: is_bits_funpow_rot90 length_funpow_rot90)
qed

lemma same_encoding_same_cost:
  assumes "is_bits x" and "length x = N * N" and "is_bits y" and "length y = N * N"
    and "bits_to_int (Min (orbit4 N x)) = bits_to_int (Min (orbit4 N y))"
  shows "invariant_cost x n = invariant_cost y n"
proof -
  have x: "is_bits (Min (orbit4 N x))" "length (Min (orbit4 N x)) = N * N"
    using is_grid_Min_orbit4 [OF assms(1,2)] by simp_all
  have y: "is_bits (Min (orbit4 N y))" "length (Min (orbit4 N y)) = N * N"
    using is_grid_Min_orbit4 [OF assms(3,4)] by simp_all
  have "Min (orbit4 N x) = Min (orbit4 N y)"
    using x y assms(5) by (intro bits_to_int_inj) simp_all
  moreover have "invariant_cost (Min (orbit4 N x)) n = invariant_cost x n"
    using Min_orbit4_member assms(2) by (rule invariant_cost_orbit4)
  moreover have "invariant_cost (Min (orbit4 N y)) n = invariant_cost y n"
    using Min_orbit4_member assms(4) by (rule invariant_cost_orbit4)
  ultimately show ?thesis by simp
qed

lemma first_zero_le_length: "first_zero samples n \<le> length samples"
  by (induction samples) simp_all

lemma first_zero_pos: "samples \<noteq> [] \<Longrightarrow> 1 \<le> first_zero samples n"
  by (cases samples) simp_all

lemma open_best_improves_zero: "open_best best \<Longrightarrow> improves 0 best"
  by (simp add: open_best_def improves_def split: option.splits)

lemma raw_loop_first_zero:
  "open_best best \<Longrightarrow> raw_loop samples n best evals = evals + first_zero samples n"
proof (induction samples arbitrary: best evals)
  case Nil
  show ?case by simp
next
  case (Cons x samples)
  show ?case
  proof (cases "invariant_cost x n = 0")
    case True
    with Cons.prems show ?thesis
      by (simp add: open_best_improves_zero)
  next
    case False
    with invariant_cost_range [of x n] have "open_best (Some (invariant_cost x n))"
      by (simp add: open_best_def)
    with False Cons.prems show ?thesis
      by (simp add: Cons.IH Let_def)
  qed
qed

lemma seen_safe_insert:
  assumes "seen_safe N n seen" and "is_bits x" and "length x = N * N"
    and "invariant_cost x n \<noteq> 0"
  shows "seen_safe N n (insert (bits_to_int (Min (orbit4 N x))) seen)"
  unfolding seen_safe_def
proof (intro allI impI)
  fix y
  assume y: "is_bits y \<and> length y = N * N \<and> invariant_cost y n = 0"
  then have "bits_to_int (Min (orbit4 N y)) \<notin> seen"
    using assms(1) by (simp add: seen_safe_def)
  moreover have "bits_to_int (Min (orbit4 N y)) \<noteq> bits_to_int (Min (orbit4 N x))"
  proof
    assume "bits_to_int (Min (orbit4 N y)) = bits_to_int (Min (orbit4 N x))"
    with y assms(2,3) have "invariant_cost y n = invariant_cost x n"
      by (intro same_encoding_same_cost) simp_all
    with y assms(4) show False by simp
  qed
  ultimately show "bits_to_int (Min (orbit4 N y)) \<notin> insert (bits_to_int (Min (orbit4 N x))) seen"
    by simp
qed

lemma orbit_scan_bounds:
  assumes "list_all (is_grid (int N)) samples" and "open_best best2" and "seen_safe N (int N) seen"
  shows "\<exists>r. orbit_scan samples (int N) (rotate90_indices (int N)) seen best2 evals = Inr r
           \<and> evals \<le> r \<and> r \<le> evals + first_zero samples (int N)
           \<and> ((\<exists>x \<in> set samples. invariant_cost x (int N) = 0) \<longrightarrow> evals + 1 \<le> r)"
  using assms
proof (induction samples arbitrary: seen best2 evals)
  case Nil
  show ?case by simp
next
  case (Cons x samples)
  let ?m = "rotate90_indices (int N)"
  let ?rep = "Min (orbit4 N x)"
  from Cons.prems(1) have rest: "list_all (is_grid (int N)) samples"
    and "is_grid (int N) x"
    by simp_all
  then have bits: "is_bits x" and len: "length x = N * N"
    by (simp_all add: is_grid_def nat_mult_distrib)
  have canon: "canonical_representative x (int N) ?m = Inr ?rep"
    using len by (rule canonical_representative_Min)
  have cost: "invariant_cost ?rep (int N) = invariant_cost x (int N)"
    using Min_orbit4_member len by (rule invariant_cost_orbit4)
  show ?case
  proof (cases "bits_to_int ?rep \<in> seen")
    case True
    with Cons.prems(3) bits len have nz: "invariant_cost x (int N) \<noteq> 0"
      unfolding seen_safe_def by blast
    from Cons.IH [OF rest Cons.prems(2,3), of evals]
    obtain r where r: "orbit_scan samples (int N) ?m seen best2 evals = Inr r"
      "evals \<le> r" "r \<le> evals + first_zero samples (int N)"
      "(\<exists>x \<in> set samples. invariant_cost x (int N) = 0) \<longrightarrow> evals + 1 \<le> r"
      by blast
    have "orbit_scan (x # samples) (int N) ?m seen best2 evals = Inr r"
      using True r(1) by (simp add: canon)
    moreover have "r \<le> evals + first_zero (x # samples) (int N)"
      using r(3) nz by simp
    moreover have "(\<exists>y \<in> set (x # samples). invariant_cost y (int N) = 0) \<longrightarrow> evals + 1 \<le> r"
      using r(4) nz by simp
    ultimately show ?thesis using r(2) by blast
  next
    case False
    show ?thesis
    proof (cases "invariant_cost x (int N) = 0")
      case True
      with Cons.prems(2) have "improves 0 best2" by (simp add: open_best_improves_zero)
      with True False have "orbit_scan (x # samples) (int N) ?m seen best2 evals = Inr (evals + 1)"
        by (simp add: canon cost)
      with True show ?thesis by simp
    next
      case nz: False
      let ?seen = "insert (bits_to_int ?rep) seen"
      let ?best = "if improves (invariant_cost x (int N)) best2 then Some (invariant_cost x (int N)) else best2"
      have safe: "seen_safe N (int N) ?seen"
        using Cons.prems(3) bits len nz by (rule seen_safe_insert)
      have "open_best (Some (invariant_cost x (int N)))"
        using nz invariant_cost_range [of x "int N"] by (simp add: open_best_def)
      with Cons.prems(2) have best: "open_best ?best" by simp
      from Cons.IH [OF rest best safe, of "evals + 1"]
      obtain r where r: "orbit_scan samples (int N) ?m ?seen ?best (evals + 1) = Inr r"
        "evals + 1 \<le> r" "r \<le> evals + 1 + first_zero samples (int N)"
        by blast
      have "orbit_scan (x # samples) (int N) ?m seen best2 evals =
          orbit_scan samples (int N) ?m ?seen ?best (evals + 1)"
        using False nz by (simp add: canon cost Let_def)
      with r(1) have "orbit_scan (x # samples) (int N) ?m seen best2 evals = Inr r" by simp
      moreover have "r \<le> evals + first_zero (x # samples) (int N)"
        using r(3) nz by simp
      ultimately show ?thesis using r(2) by auto
    qed
  qed
qed

text \<open>
  C5. For \<open>n \<ge> 1\<close> and a sample sequence of grids of \<open>n * n\<close> bits, \<open>brute_force_search\<close>
  returns a pair \<open>(evals_raw, evals_orbit)\<close> with \<open>evals_orbit \<le> evals_raw\<close> and both counts
  at most the length of the sequence; when the sequence contains a grid of cost 0 (number
  of 1-bits modulo 5), both counts are at least 1.
\<close>

theorem brute_force_search_counts:
  assumes "1 \<le> n" and "list_all (is_grid n) samples"
  shows "\<exists>evals_raw evals_orbit.
           brute_force_search samples n = Inr (evals_raw, evals_orbit)
         \<and> evals_orbit \<le> evals_raw
         \<and> evals_raw \<le> length samples
         \<and> evals_orbit \<le> length samples
         \<and> ((\<exists>x \<in> set samples. invariant_cost x n = 0) \<longrightarrow> 1 \<le> evals_raw \<and> 1 \<le> evals_orbit)"
proof -
  define N where "N = nat n"
  with assms have n: "n = int N" by simp
  have raw: "raw_loop samples n None 0 = first_zero samples n"
    using raw_loop_first_zero [of None samples n 0] by (simp add: open_best_def)
  have "seen_safe N (int N) {}" by (simp add: seen_safe_def)
  moreover have "open_best None" by (simp add: open_best_def)
  moreover have "list_all (is_grid (int N)) samples" using assms(2) by (simp add: n)
  ultimately obtain r where r: "orbit_scan samples (int N) (rotate90_indices (int N)) {} None 0 = Inr r"
    "r \<le> 0 + first_zero samples (int N)"
    "(\<exists>x \<in> set samples. invariant_cost x (int N) = 0) \<longrightarrow> 0 + 1 \<le> r"
    using orbit_scan_bounds [of N samples None "{}" 0] by blast
  have res: "brute_force_search samples n = Inr (first_zero samples n, r)"
    using r(1) by (simp add: brute_force_search_def raw n [symmetric])
  have le: "first_zero samples n \<le> length samples" by (rule first_zero_le_length)
  have "r \<le> first_zero samples n" using r(2) by (simp add: n)
  moreover from this le have "r \<le> length samples" by simp
  moreover have "(\<exists>x \<in> set samples. invariant_cost x n = 0) \<longrightarrow>
      1 \<le> first_zero samples n \<and> 1 \<le> r"
    using r(2,3) by (auto simp: n)
  ultimately show ?thesis using res le by blast
qed

theorem brute_force_search_counts_witness:
  "(1::int) \<le> 2
   \<and> list_all (is_grid 2) [[1, 0, 0, 0], [0, 1, 0, 0], [0, 0, 0, 0], [1, 1, 1, 1]]
   \<and> invariant_cost [0, 0, 0, 0] 2 = 0
   \<and> brute_force_search [[1, 0, 0, 0], [0, 1, 0, 0], [0, 0, 0, 0], [1, 1, 1, 1]] 2 = Inr (3, 2)"
proof -
  let ?s = "[[1, 0, 0, 0], [0, 1, 0, 0], [0, 0, 0, 0], [1, 1, 1, 1 :: int]]"
  have h1: "(1::int) \<le> 2" by simp
  have h2: "list_all (is_grid 2) ?s" by (simp add: is_grid_def is_bits_def)
  have z: "invariant_cost [0, 0, 0, 0] 2 = 0" by (simp add: invariant_cost_def)
  have v: "rotate90_indices 2 = [2, 0, 3, 1]"
    by (simp add: rotate90_indices_def py_range_def upt_rec)
  have c1: "canonical_representative [1, 0, 0, 0] 2 [2, 0, 3, 1] = Inr [0, 0, 0, 1]"
    and c2: "canonical_representative [0, 1, 0, 0] 2 [2, 0, 3, 1] = Inr [0, 0, 0, 1]"
    and c3: "canonical_representative [0, 0, 0, 0] 2 [2, 0, 3, 1] = Inr [0, 0, 0, 0]"
    by (simp_all add: canonical_representative_def numeral_3_eq_3 tuple_get_def)
  have o: "orbit_scan ?s 2 [2, 0, 3, 1] {} None 0 = Inr 2"
    by (simp add: c1 c2 c3 bits_to_int_def invariant_cost_def improves_def)
  have "raw_loop ?s 2 None 0 = 3"
    by (simp add: invariant_cost_def improves_def)
  with o have e: "brute_force_search ?s 2 = Inr (3, 2)"
    by (simp add: brute_force_search_def v)
  from brute_force_search_counts [OF h1 h2] e
  have "(2::nat) \<le> 3 \<and> (3::nat) \<le> length ?s" by auto
  with h1 h2 z e show ?thesis by blast
qed

section \<open>Packing the samples\<close>

lemma bytes_hold_bits: "(2::int) ^ k \<le> 256 ^ ((k + 7) div 8)"
proof -
  have "k \<le> 8 * ((k + 7) div 8)" by presburger
  then have "(2::int) ^ k \<le> 2 ^ (8 * ((k + 7) div 8))"
    by (intro power_increasing) simp_all
  also have "\<dots> = 256 ^ ((k + 7) div 8)"
    by (simp add: power_mult)
  finally show ?thesis .
qed

lemma to_bytes_encoding:
  assumes "length x = N * N"
  shows "\<exists>bs. to_bytes (bits_to_int x) (nat ((int N * int N + 7) div 8)) = Inr bs"
proof -
  have B: "nat ((int N * int N + 7) div 8) = (N * N + 7) div 8"
  proof -
    have "int N * int N + 7 = int (N * N + 7)" by simp
    then have "(int N * int N + 7) div 8 = int ((N * N + 7) div 8)"
      by (simp only: zdiv_int) simp
    then show ?thesis by simp
  qed
  have "0 \<le> bits_to_int x" and "bits_to_int x < 2 ^ (N * N)"
    using bits_to_int_bounds [of x] assms by simp_all
  moreover have "(2::int) ^ (N * N) \<le> 256 ^ ((N * N + 7) div 8)"
    by (rule bytes_hold_bits)
  ultimately have "\<not> (bits_to_int x < 0 \<or> 256 ^ ((N * N + 7) div 8) \<le> bits_to_int x)"
    by linarith
  then show ?thesis
    by (simp only: to_bytes_def B if_False) blast
qed

lemma pack_loop_grids:
  assumes "list_all (is_grid (int N)) samples"
  shows "\<exists>raw' canon'. pack_loop samples (int N) (rotate90_indices (int N))
            (nat ((int N * int N + 7) div 8)) raw canon = Inr (raw', canon')"
  using assms
proof (induction samples arbitrary: raw canon)
  case Nil
  show ?case by simp
next
  case (Cons x samples)
  from Cons.prems have rest: "list_all (is_grid (int N)) samples" and "is_grid (int N) x"
    by simp_all
  then have bits: "is_bits x" and len: "length x = N * N"
    by (simp_all add: is_grid_def nat_mult_distrib)
  have canon: "canonical_representative x (int N) (rotate90_indices (int N)) = Inr (Min (orbit4 N x))"
    using len by (rule canonical_representative_Min)
  have "length (Min (orbit4 N x)) = N * N"
    using is_grid_Min_orbit4 [OF bits len] by simp
  then obtain cb where cb: "to_bytes (bits_to_int (Min (orbit4 N x))) (nat ((int N * int N + 7) div 8)) = Inr cb"
    using to_bytes_encoding by blast
  obtain xb where xb: "to_bytes (bits_to_int x) (nat ((int N * int N + 7) div 8)) = Inr xb"
    using to_bytes_encoding [OF len] by blast
  from Cons.IH [OF rest, of "raw @ xb" "canon @ cb"] show ?case
    by (simp add: canon xb cb)
qed

text \<open>
  C6, amended. The estimator needs at least one sample, but it does not check for one. Called
  with a zero-length sample sequence it rejects nothing beforehand: whatever the compressor,
  the grid size and the index map, it packs two empty buffers, takes their compressed lengths
  and evaluates the division by the sample count, which raises ZeroDivisionError. Called
  with at least one sample, all of them grids of \<open>n * n\<close> bits with \<open>n \<ge> 1\<close>, it raises
  nothing and returns the difference of the compressed lengths times 8 over the sample count.
\<close>

theorem sci_via_compression_needs_sample:
  "pack_loop [] n rot90_map (nat ((n * n + 7) div 8)) [] [] = Inr ([], [])
   \<and> sci_via_compression compress_length [] n rot90_map =
       py_truediv (real_of_int ((int (compress_length []) - int (compress_length [])) * 8))
         (real (length ([] :: int list list)))
   \<and> sci_via_compression compress_length [] n rot90_map = Inl ZeroDivisionError
   \<and> (1 \<le> n \<and> samples \<noteq> [] \<and> list_all (is_grid n) samples \<longrightarrow>
        (\<exists>raw canon.
            pack_loop samples n (rotate90_indices n) (nat ((n * n + 7) div 8)) [] [] = Inr (raw, canon)
          \<and> sci_via_compression compress_length samples n (rotate90_indices n) =
              Inr (real_of_int ((int (compress_length raw) - int (compress_length canon)) * 8)
                   / real (length samples))))"
proof -
  have empty: "pack_loop [] n rot90_map (nat ((n * n + 7) div 8)) [] [] = Inr ([], [])"
    by simp
  have division: "sci_via_compression compress_length [] n rot90_map =
       py_truediv (real_of_int ((int (compress_length []) - int (compress_length [])) * 8))
         (real (length ([] :: int list list)))"
    by (simp add: sci_via_compression_def)
  have raises: "sci_via_compression compress_length [] n rot90_map = Inl ZeroDivisionError"
    by (simp add: sci_via_compression_def py_truediv_def)
  have some: "\<exists>raw canon.
            pack_loop samples n (rotate90_indices n) (nat ((n * n + 7) div 8)) [] [] = Inr (raw, canon)
          \<and> sci_via_compression compress_length samples n (rotate90_indices n) =
              Inr (real_of_int ((int (compress_length raw) - int (compress_length canon)) * 8)
                   / real (length samples))"
    if "1 \<le> n" and "samples \<noteq> []" and "list_all (is_grid n) samples"
  proof -
    define N where "N = nat n"
    with that have n: "n = int N" by simp
    from that(3) obtain raw canon where
      p: "pack_loop samples n (rotate90_indices n) (nat ((n * n + 7) div 8)) [] [] = Inr (raw, canon)"
      unfolding n using pack_loop_grids by blast
    from that(2) have "real (length samples) \<noteq> 0" by simp
    then have "sci_via_compression compress_length samples n (rotate90_indices n) =
        Inr (real_of_int ((int (compress_length raw) - int (compress_length canon)) * 8)
             / real (length samples))"
      by (simp add: sci_via_compression_def p py_truediv_def)
    with p show ?thesis by blast
  qed
  from empty division raises some show ?thesis by blast
qed

theorem sci_via_compression_needs_sample_witness:
  "(1::int) \<le> 2 \<and> [[1, 0, 0, 0 :: int]] \<noteq> [] \<and> list_all (is_grid 2) [[1, 0, 0, 0]]
   \<and> sci_via_compression length [] 2 (rotate90_indices 2) = Inl ZeroDivisionError
   \<and> pack_loop [[1, 0, 0, 0]] 2 (rotate90_indices 2) (nat ((2 * 2 + 7) div 8)) [] [] = Inr ([8], [1])
   \<and> sci_via_compression length [[1, 0, 0, 0]] 2 (rotate90_indices 2) = Inr 0"
proof -
  have h: "(1::int) \<le> 2 \<and> [[1, 0, 0, 0 :: int]] \<noteq> [] \<and> list_all (is_grid 2) [[1, 0, 0, 0]]"
    by (simp add: is_grid_def is_bits_def)
  have v: "rotate90_indices 2 = [2, 0, 3, 1]"
    by (simp add: rotate90_indices_def py_range_def upt_rec)
  have c: "canonical_representative [1, 0, 0, 0] 2 [2, 0, 3, 1] = Inr [0, 0, 0, 1]"
    by (simp add: canonical_representative_def numeral_3_eq_3 tuple_get_def)
  have p: "pack_loop [[1, 0, 0, 0]] 2 (rotate90_indices 2) (nat ((2 * 2 + 7) div 8)) [] [] = Inr ([8], [1])"
    by (simp add: v c bits_to_int_def to_bytes_def)
  note t = sci_via_compression_needs_sample [of 2 "rotate90_indices 2" length "[[1, 0, 0, 0]]"]
  from t have z: "sci_via_compression length [] 2 (rotate90_indices 2) = Inl ZeroDivisionError"
    by blast
  from t h obtain raw canon where
    q: "pack_loop [[1, 0, 0, 0]] 2 (rotate90_indices 2) (nat ((2 * 2 + 7) div 8)) [] [] = Inr (raw, canon)"
    and g: "sci_via_compression length [[1, 0, 0, 0]] 2 (rotate90_indices 2) =
       Inr (real_of_int ((int (length raw) - int (length canon)) * 8) / real (length [[1, 0, 0, 0 :: int]]))"
    by blast
  from p q have "raw = [8]" and "canon = [1]" by simp_all
  with g have "sci_via_compression length [[1, 0, 0, 0]] 2 (rotate90_indices 2) = Inr 0"
    by simp
  with h z p show ?thesis by blast
qed

end
